theory Spec2Isabelle
  imports Main "HOL-Library.AList" "HOL-Library.Product_Lexorder"
begin

section \<open>Skills aggregation (\<open>aggregate_skills\<close>)\<close>

text \<open>
  The runs are JSON objects. A key that may be missing is an \<open>option\<close> field, and the
  default of each \<open>.get(key, default)\<close> of the source is written out where the field is
  read. Identifiers and scores are Python integers.
\<close>

record info =
  info_id :: "int option"
  info_name :: "string option"

record run =
  team :: "info option"
  event :: "info option"
  skill_type :: "string option"
  score :: "int option"

text \<open>The value stored in \<open>team_event[key]\<close>.\<close>

record team_event_best =
  te_team_id :: "int option"
  te_team_number :: string
  te_event_id :: "int option"
  te_event_name :: string
  te_driver :: int
  te_programming :: int

text \<open>
  The value stored in \<open>best_per_team[team_id]\<close>. The keys \<open>rank\<close> and
  \<open>bubble_rank\<close> are added to the dictionary later, so they are optional here.
\<close>

record entry =
  team_id :: "int option"
  team_number :: string
  event_name :: string
  driver :: int
  programming :: int
  combined :: int
  rank :: "int option"
  bubble_rank :: "int option"

type_synonym team_event = "((int option \<times> int option) \<times> team_event_best) list"
type_synonym best_per_team = "(int option \<times> entry) list"

text \<open>\<open>run.get("team", {})\<close> and \<open>run.get("event", {})\<close>: an absent object is the empty one.\<close>

definition get_info :: "info option \<Rightarrow> info" where
  "get_info i = (case i of None \<Rightarrow> \<lparr>info_id = None, info_name = None\<rparr> | Some x \<Rightarrow> x)"

definition run_team_id :: "run \<Rightarrow> int option" where
  "run_team_id r = info_id (get_info (team r))"

definition run_event_id :: "run \<Rightarrow> int option" where
  "run_event_id r = info_id (get_info (event r))"

definition run_type :: "run \<Rightarrow> string" where
  "run_type r = (case skill_type r of None \<Rightarrow> [] | Some s \<Rightarrow> s)"

definition run_score :: "run \<Rightarrow> int" where
  "run_score r = (case score r of None \<Rightarrow> 0 | Some s \<Rightarrow> s)"

definition run_key :: "run \<Rightarrow> int option \<times> int option" where
  "run_key r = (run_team_id r, run_event_id r)"

text \<open>The dictionary created for a key that is not yet in \<open>team_event\<close>.\<close>

definition new_group :: "run \<Rightarrow> team_event_best" where
  "new_group r =
     \<lparr>te_team_id = run_team_id r,
      te_team_number = (case info_name (get_info (team r)) of None \<Rightarrow> ''???'' | Some n \<Rightarrow> n),
      te_event_id = run_event_id r,
      te_event_name = (case info_name (get_info (event r)) of None \<Rightarrow> [] | Some n \<Rightarrow> n),
      te_driver = 0,
      te_programming = 0\<rparr>"

text \<open>
  One iteration of the first loop. A Python dictionary keeps its keys in the order of
  their first insertion, and assigning to an existing key keeps the key's place: the
  dictionary is an association list, a new key is appended and an old one is updated
  where it stands.
\<close>

definition add_run :: "team_event \<Rightarrow> run \<Rightarrow> team_event" where
  "add_run te r =
     (let key = run_key r;
          te1 = (if map_of te key = None then te @ [(key, new_group r)] else te)
      in if run_type r = ''driver''
         then AList.map_entry key (\<lambda>g. g\<lparr>te_driver := max (te_driver g) (run_score r)\<rparr>) te1
         else if run_type r = ''programming''
         then AList.map_entry key
                (\<lambda>g. g\<lparr>te_programming := max (te_programming g) (run_score r)\<rparr>) te1
         else te1)"

definition group_runs :: "run list \<Rightarrow> team_event" where
  "group_runs all_skills = foldl add_run [] all_skills"

definition make_entry :: "team_event_best \<Rightarrow> entry" where
  "make_entry d =
     \<lparr>team_id = te_team_id d,
      team_number = te_team_number d,
      event_name = te_event_name d,
      driver = te_driver d,
      programming = te_programming d,
      combined = te_driver d + te_programming d,
      rank = None,
      bubble_rank = None\<rparr>"

text \<open>One iteration of the second loop, over \<open>team_event.items()\<close>.\<close>

definition best_step ::
  "best_per_team \<Rightarrow> (int option \<times> int option) \<times> team_event_best \<Rightarrow> best_per_team" where
  "best_step best kd =
     (let d = snd kd; t = te_team_id d; c = te_driver d + te_programming d
      in case map_of best t of
           None \<Rightarrow> AList.update t (make_entry d) best
         | Some b \<Rightarrow> if c > combined b then AList.update t (make_entry d) best else best)"

definition select_best :: "team_event \<Rightarrow> best_per_team" where
  "select_best te = foldl best_step [] te"

text \<open>
  \<open>sorted(..., key=lambda x: (-x["combined"], -x["programming"]))\<close>: Python compares
  the key tuples lexicographically and its sort is stable, as \<open>sort_key\<close> is.
\<close>

definition sort_order :: "entry \<Rightarrow> int \<times> int" where
  "sort_order x = (- combined x, - programming x)"

definition assign_ranks :: "entry list \<Rightarrow> entry list" where
  "assign_ranks leaderboard =
     map (\<lambda>(i, e). e\<lparr>rank := Some (int i + 1)\<rparr>) (enumerate 0 leaderboard)"

definition aggregate_skills :: "run list \<Rightarrow> entry list" where
  "aggregate_skills all_skills =
     assign_ranks (sort_key sort_order (map snd (select_best (group_runs all_skills))))"

subsection \<open>Notions used in the statements about the aggregation\<close>

text \<open>
  A (team, event) group is named by its key. \<open>first_pos k runs\<close> is the index of the first
  run of group \<open>k\<close> in the input, \<open>first_run\<close> that run; \<open>scores_of runs k ty\<close> are the scores
  of the runs of group \<open>k\<close> that have type \<open>ty\<close>, in input order.
\<close>

definition first_pos :: "int option \<times> int option \<Rightarrow> run list \<Rightarrow> nat" where
  "first_pos k runs = length (takeWhile (\<lambda>r. run_key r \<noteq> k) runs)"

definition first_run :: "run list \<Rightarrow> int option \<times> int option \<Rightarrow> run" where
  "first_run runs k = runs ! first_pos k runs"

definition scores_of :: "run list \<Rightarrow> int option \<times> int option \<Rightarrow> string \<Rightarrow> int list" where
  "scores_of runs k ty = map run_score (filter (\<lambda>r. run_key r = k \<and> run_type r = ty) runs)"

text \<open>
  The score component of a group as the loop accumulates it, starting from zero: the
  maximum of zero and the scores of the kind. \<open>group_total\<close> is the sum of the two
  components.
\<close>

definition best_score :: "run list \<Rightarrow> int option \<times> int option \<Rightarrow> string \<Rightarrow> int" where
  "best_score runs k ty = Max (insert 0 (set (scores_of runs k ty)))"

definition group_total :: "run list \<Rightarrow> int option \<times> int option \<Rightarrow> int" where
  "group_total runs k = best_score runs k ''driver'' + best_score runs k ''programming''"

text \<open>
  The maximum of a list of scores, zero when there is none: what a score component is
  said to be when every score is non-negative.
\<close>

definition max_score :: "int list \<Rightarrow> int" where
  "max_score xs = (if xs = [] then 0 else Max (set xs))"

text \<open>
  The team, the event and the score of a run, and the scores of the runs of one kind
  that a team has at an event, read from the fields of the runs themselves: the team
  identifier is \<open>run["team"]["id"]\<close>, the event identifier \<open>run["event"]["id"]\<close>, the
  score \<open>run["score"]\<close> (zero when the key is missing) and the kind \<open>run["type"]\<close>.
\<close>

definition team_of :: "run \<Rightarrow> int option" where
  "team_of r = (case team r of None \<Rightarrow> None | Some t \<Rightarrow> info_id t)"

definition event_of :: "run \<Rightarrow> int option" where
  "event_of r = (case event r of None \<Rightarrow> None | Some ev \<Rightarrow> info_id ev)"

definition score_of :: "run \<Rightarrow> int" where
  "score_of r = (case score r of None \<Rightarrow> 0 | Some s \<Rightarrow> s)"

definition scores_at :: "run list \<Rightarrow> int option \<Rightarrow> int option \<Rightarrow> string \<Rightarrow> int list" where
  "scores_at runs t ev kind =
     map score_of
       (filter (\<lambda>r. team_of r = t \<and> event_of r = ev \<and> skill_type r = Some kind) runs)"

text \<open>
  The dictionary \<open>team_event[k]\<close> at the end of the first loop, told from the input:
  created by the first run of the group, with the two best scores.
\<close>

definition group_of :: "run list \<Rightarrow> int option \<times> int option \<Rightarrow> team_event_best" where
  "group_of runs k =
     (new_group (first_run runs k))
       \<lparr>te_driver := best_score runs k ''driver'',
        te_programming := best_score runs k ''programming''\<rparr>"

definition group_combined :: "team_event_best \<Rightarrow> int" where
  "group_combined d = te_driver d + te_programming d"

text \<open>A run whose type is neither "driver" nor "programming".\<close>

definition unrecognized :: "run \<Rightarrow> bool" where
  "unrecognized r \<longleftrightarrow> run_type r \<noteq> ''driver'' \<and> run_type r \<noteq> ''programming''"

text \<open>The order of the leaderboard: combined score descending, then programming score descending.\<close>

definition ranks_before :: "entry \<Rightarrow> entry \<Rightarrow> bool" where
  "ranks_before a b \<longleftrightarrow>
     combined a > combined b \<or> (combined a = combined b \<and> programming a \<ge> programming b)"

text \<open>Entries with the same two sort keys.\<close>

definition same_keys :: "int \<Rightarrow> int \<Rightarrow> entry \<Rightarrow> bool" where
  "same_keys c p e \<longleftrightarrow> combined e = c \<and> programming e = p"

text \<open>The list handed to \<open>sorted\<close>: \<open>best_per_team.values()\<close>, in dictionary order.\<close>

definition before_sort :: "run list \<Rightarrow> entry list" where
  "before_sort runs = map snd (select_best (group_runs runs))"

text \<open>An entry as it was before its rank was assigned.\<close>

definition unranked :: "entry \<Rightarrow> entry" where
  "unranked e = e\<lparr>rank := None\<rparr>"

subsection \<open>Concrete inputs\<close>

text \<open>A run with every field present.\<close>

definition mk_run :: "int \<Rightarrow> string \<Rightarrow> int \<Rightarrow> string \<Rightarrow> string \<Rightarrow> int \<Rightarrow> run" where
  "mk_run t tn ev en ty s =
     \<lparr>team = Some \<lparr>info_id = Some t, info_name = Some tn\<rparr>,
      event = Some \<lparr>info_id = Some ev, info_name = Some en\<rparr>,
      skill_type = Some ty, score = Some s\<rparr>"

text \<open>
  Team 100A with driver 50 and programming 40 at event E1, driver 60 and programming 20
  at event E2; team 200B with one programming run scoring 70.
\<close>

definition scenario_100A :: "run list" where
  "scenario_100A =
     [mk_run 100 ''100A'' 1 ''E1'' ''driver'' 50,
      mk_run 100 ''100A'' 1 ''E1'' ''programming'' 40,
      mk_run 100 ''100A'' 2 ''E2'' ''driver'' 60,
      mk_run 100 ''100A'' 2 ''E2'' ''programming'' 20]"

definition scenario_200B :: "run list" where
  "scenario_200B = [mk_run 200 ''200B'' 1 ''E1'' ''programming'' 70]"

text \<open>Both teams together.\<close>

definition scenario_two_teams :: "run list" where
  "scenario_two_teams = scenario_100A @ scenario_200B"

text \<open>Four teams, three of them with combined score 50; a run of an unknown type.\<close>

definition scenario_ties :: "run list" where
  "scenario_ties =
     [mk_run 1 ''1A'' 1 ''E1'' ''driver'' 50,
      mk_run 2 ''2B'' 1 ''E1'' ''programming'' 50,
      mk_run 3 ''3C'' 2 ''E2'' ''driver'' 50,
      mk_run 4 ''4D'' 2 ''E2'' ''driver'' 60]"

definition scenario_unknown :: "run list" where
  "scenario_unknown = [mk_run 3 ''300C'' 1 ''E1'' ''autonomous'' 70]"

section \<open>The API client (\<open>RobotEventsAPI\<close>)\<close>

text \<open>
  A request is an endpoint with its query parameters, a dictionary from names to
  integers or strings. The body of a successful response is a JSON object of which the
  client reads the keys \<open>data\<close> and \<open>meta\<close>, and of \<open>meta\<close> the keys \<open>current_page\<close>,
  \<open>last_page\<close> and \<open>total\<close>; a missing key is \<open>None\<close>.
\<close>

datatype pval = PInt int | PStr string

type_synonym params = "(string \<times> pval) list"
type_synonym request = "string \<times> params"

record meta_info =
  current_page :: "int option"
  last_page :: "int option"
  total :: "int option"

record 'r envelope =
  data :: "'r list option"
  meta :: "meta_info option"

text \<open>
  The \<open>Retry-After\<close> header of a 429 response: absent, a string that \<open>int\<close> reads as a
  number of seconds, or a string that \<open>int\<close> rejects.
\<close>

datatype retry_after = NoHeader | HeaderSeconds int | HeaderOther

text \<open>
  What one call of \<open>session.get\<close> followed by \<open>raise_for_status\<close> and \<open>json\<close> can do:
  return a body, answer 429, or raise a \<open>RequestException\<close> (connection error, timeout,
  HTTP error status), which carries a message.
\<close>

datatype 'r response = Ok "'r envelope" | TooManyRequests retry_after | Failed string

datatype error = RequestException string | ValueError | OverflowError | RuntimeError string

text \<open>
  The server is a function of the number of requests the client has made before and of
  the request. The client's state is its request counter and, for the claims about
  waiting and retrying, the trace of its sleeps and requests: \<open>Pace\<close> is
  \<open>time.sleep(RATE_LIMIT_DELAY)\<close>, \<open>Sleep n\<close> a sleep of \<open>n\<close> seconds.
\<close>

type_synonym 'r server = "nat \<Rightarrow> request \<Rightarrow> 'r response"

datatype action = Pace | Sleep int | Get request

record client =
  request_count :: nat
  trace :: "action list"

definition MAX_RETRIES :: nat where
  "MAX_RETRIES = 3"

definition PER_PAGE :: int where
  "PER_PAGE = 250"

definition V5RC_PROGRAM_ID :: int where
  "V5RC_PROGRAM_ID = 1"

text \<open>
  \<open>int(resp.headers.get("Retry-After", 30))\<close>: 30 when the header is absent,
  \<open>ValueError\<close> when \<open>int\<close> rejects it.
\<close>

definition retry_wait :: "retry_after \<Rightarrow> error + int" where
  "retry_wait h =
     (case h of NoHeader \<Rightarrow> Inr 30 | HeaderSeconds n \<Rightarrow> Inr n | HeaderOther \<Rightarrow> Inl ValueError)"

text \<open>
  \<open>time.sleep(n)\<close> for an integer \<open>n\<close> first converts the seconds to a signed 64-bit count
  of nanoseconds, which raises \<open>OverflowError\<close> beyond 9223372036 seconds on either
  side, and then raises \<open>ValueError\<close> for a negative duration. Neither is a
  \<open>RequestException\<close>.
\<close>

definition sleep_limit :: int where
  "sleep_limit = 9223372036"

definition sleep_error :: "int \<Rightarrow> error option" where
  "sleep_error n =
     (if n < - sleep_limit \<or> sleep_limit < n then Some OverflowError
      else if n < 0 then Some ValueError
      else None)"

definition empty_envelope :: "'r envelope" where
  "empty_envelope = \<lparr>data = None, meta = None\<rparr>"

text \<open>
  The loop \<open>for attempt in range(MAX_RETRIES)\<close> of \<open>_get\<close>, over the attempts that are
  left. A 429 response sleeps and goes on to the next attempt (\<open>continue\<close>); an
  exception of \<open>int\<close> or of \<open>time.sleep\<close> there is not caught by the \<open>except\<close> clause;
  when the attempts are used up the function returns \<open>{}\<close>. The backoff sleep of
  \<open>2 ** attempt\<close> seconds is at most 2 seconds and cannot fail.
\<close>

fun get_attempts ::
  "'r server \<Rightarrow> request \<Rightarrow> nat list \<Rightarrow> client \<Rightarrow> (error + 'r envelope) \<times> client" where
  "get_attempts srv req [] st = (Inr empty_envelope, st)"
| "get_attempts srv req (attempt # rest) st =
     (let st1 = st\<lparr>trace := trace st @ [Pace]\<rparr>;
          st2 = st1\<lparr>request_count := request_count st1 + 1, trace := trace st1 @ [Get req]\<rparr>
      in case srv (request_count st) req of
           TooManyRequests h \<Rightarrow>
             (case retry_wait h of
                Inl e \<Rightarrow> (Inl e, st2)
              | Inr wait \<Rightarrow>
                  (case sleep_error wait of
                     Some e \<Rightarrow> (Inl e, st2)
                   | None \<Rightarrow>
                       get_attempts srv req rest (st2\<lparr>trace := trace st2 @ [Sleep wait]\<rparr>)))
         | Ok body \<Rightarrow> (Inr body, st2)
         | Failed e \<Rightarrow>
             if attempt < MAX_RETRIES - 1
             then get_attempts srv req rest (st2\<lparr>trace := trace st2 @ [Sleep (2 ^ attempt)]\<rparr>)
             else (Inl (RequestException e), st2))"

definition RobotEventsAPI_get ::
  "'r server \<Rightarrow> string \<Rightarrow> params \<Rightarrow> client \<Rightarrow> (error + 'r envelope) \<times> client" where
  "RobotEventsAPI_get srv endpoint params st =
     get_attempts srv (endpoint, params) [0..<MAX_RETRIES] st"

definition get_data :: "'r envelope \<Rightarrow> 'r list" where
  "get_data result = (case data result of None \<Rightarrow> [] | Some d \<Rightarrow> d)"

definition get_meta :: "'r envelope \<Rightarrow> meta_info" where
  "get_meta result =
     (case meta result of
        None \<Rightarrow> \<lparr>current_page = None, last_page = None, total = None\<rparr>
      | Some m \<Rightarrow> m)"

definition get_current :: "meta_info \<Rightarrow> int" where
  "get_current m = (case current_page m of None \<Rightarrow> 1 | Some c \<Rightarrow> c)"

definition get_last :: "meta_info \<Rightarrow> int" where
  "get_last m = (case last_page m of None \<Rightarrow> 1 | Some l \<Rightarrow> l)"

text \<open>
  The loop \<open>while True\<close> of \<open>_get_all_pages\<close>. It may run forever, so its result is an
  \<open>option\<close>: \<open>None\<close> is the loop that never ends. An exception of \<open>_get\<close> leaves the
  loop. The value \<open>total\<close> is only printed.
\<close>

partial_function (option) pages_loop ::
  "'r server \<Rightarrow> string \<Rightarrow> params \<Rightarrow> 'r list \<Rightarrow> client \<Rightarrow> ((error + 'r list) \<times> client) option"
  where
  "pages_loop srv endpoint params all_data st =
     (case RobotEventsAPI_get srv endpoint params st of
        (Inl e, st') \<Rightarrow> Some (Inl e, st')
      | (Inr result, st') \<Rightarrow>
          (let all_data' = all_data @ get_data result;
               current = get_current (get_meta result);
               last = get_last (get_meta result)
           in if current \<ge> last then Some (Inr all_data', st')
              else pages_loop srv endpoint
                     (AList.update ''page'' (PInt (current + 1)) params) all_data' st'))"

definition first_page_params :: "params \<Rightarrow> params" where
  "first_page_params params =
     AList.update ''page'' (PInt 1) (AList.update ''per_page'' (PInt PER_PAGE) params)"

definition RobotEventsAPI_get_all_pages ::
  "'r server \<Rightarrow> string \<Rightarrow> params \<Rightarrow> client \<Rightarrow> ((error + 'r list) \<times> client) option" where
  "RobotEventsAPI_get_all_pages srv endpoint params st =
     pages_loop srv endpoint (first_page_params params) [] st"

definition seasons_params :: params where
  "seasons_params = [(''program[]'', PInt V5RC_PROGRAM_ID), (''active'', PStr ''true'')]"

text \<open>\<open>seasons[-1]\<close> is read only when the list is not empty, where it is the last element.\<close>

definition get_active_season :: "'r server \<Rightarrow> client \<Rightarrow> (error + 'r) \<times> client" where
  "get_active_season srv st =
     (case RobotEventsAPI_get srv ''/seasons'' seasons_params st of
        (Inl e, st') \<Rightarrow> (Inl e, st')
      | (Inr result, st') \<Rightarrow>
          (let seasons = get_data result
           in if seasons = [] then (Inl (RuntimeError ''No active V5RC season found!''), st')
              else (Inr (last seasons), st')))"

subsection \<open>Notions used in the statements about the client\<close>

text \<open>The requests of a trace, in order.\<close>

definition requests_of :: "action list \<Rightarrow> request list" where
  "requests_of tr = List.map_filter (\<lambda>a. case a of Get r \<Rightarrow> Some r | _ \<Rightarrow> None) tr"

text \<open>The state after the pacing sleep and one request.\<close>

definition requested :: "client \<Rightarrow> request \<Rightarrow> client" where
  "requested st req =
     st\<lparr>request_count := request_count st + 1, trace := trace st @ [Pace, Get req]\<rparr>"

definition slept :: "client \<Rightarrow> int \<Rightarrow> client" where
  "slept st n = st\<lparr>trace := trace st @ [Sleep n]\<rparr>"

text \<open>
  The trace of a call that sleeps \<open>ws\<close> seconds after its requests but the last, and the
  state after a call that made \<open>n\<close> requests with trace \<open>tr\<close>.
\<close>

definition retry_trace :: "request \<Rightarrow> int list \<Rightarrow> action list" where
  "retry_trace req ws = concat (map (\<lambda>w. [Pace, Get req, Sleep w]) ws) @ [Pace, Get req]"

definition after_call :: "client \<Rightarrow> nat \<Rightarrow> action list \<Rightarrow> client" where
  "after_call st n tr = st\<lparr>request_count := request_count st + n, trace := trace st @ tr\<rparr>"

text \<open>An initial client state and a few servers for concrete runs.\<close>

definition st0 :: client where
  "st0 = \<lparr>request_count = 0, trace = []\<rparr>"

definition body7 :: "nat envelope" where
  "body7 = \<lparr>data = Some [7], meta = None\<rparr>"

definition server_flaky :: "nat server" where
  "server_flaky n req = (if n < 2 then Failed ''timeout'' else Ok body7)"

definition server_down :: "nat server" where
  "server_down n req = Failed ''timeout''"

definition server_busy :: "nat server" where
  "server_busy n req = TooManyRequests (HeaderSeconds 5)"

definition server_busy_once :: "nat server" where
  "server_busy_once n req = (if n = 0 then TooManyRequests NoHeader else Ok body7)"

definition server_busy_then_down :: "nat server" where
  "server_busy_then_down n req =
     (if n = 0 then TooManyRequests (HeaderSeconds 5) else Failed ''timeout'')"

definition events_request :: request where
  "events_request = (''/events'', [])"

definition no_season_error :: error where
  "no_season_error = RuntimeError ''No active V5RC season found!''"

definition server_seasons :: "nat list \<Rightarrow> nat server" where
  "server_seasons xs n req = Ok \<lparr>data = Some xs, meta = None\<rparr>"

text \<open>
  The parameters of a page request: \<open>per_page\<close> and \<open>page\<close> set in the caller's
  dictionary, as \<open>_get_all_pages\<close> does before its loop and at the end of each round.
\<close>

definition page_params :: "params \<Rightarrow> int \<Rightarrow> params" where
  "page_params ps p = AList.update ''page'' (PInt p) (AList.update ''per_page'' (PInt PER_PAGE) ps)"

text \<open>
  The page asked for in round \<open>i\<close> when the bodies received are \<open>b 0\<close>, \<open>b 1\<close>, ...:
  page 1 first, then the \<open>current_page\<close> of the last body plus one.
\<close>

definition requested_page :: "(nat \<Rightarrow> 'r envelope) \<Rightarrow> nat \<Rightarrow> int" where
  "requested_page b i = (case i of 0 \<Rightarrow> 1 | Suc j \<Rightarrow> get_current (get_meta (b j)) + 1)"

text \<open>The test that ends the loop.\<close>

definition stops :: "'r envelope \<Rightarrow> bool" where
  "stops b \<longleftrightarrow> get_current (get_meta b) \<ge> get_last (get_meta b)"

text \<open>
  The body of page \<open>i + 1\<close> of \<open>N\<close>, with any \<open>data\<close> and any \<open>total\<close>, and the
  payload of a page, empty when the body has no \<open>data\<close>.
\<close>

definition numbered_page :: "'r list option \<Rightarrow> nat \<Rightarrow> nat \<Rightarrow> int option \<Rightarrow> 'r envelope" where
  "numbered_page d i N t =
     \<lparr>data = d,
      meta = Some \<lparr>current_page = Some (int i + 1), last_page = Some (int N), total = t\<rparr>\<rparr>"

definition page_data :: "'r list option \<Rightarrow> 'r list" where
  "page_data d = (case d of None \<Rightarrow> [] | Some xs \<Rightarrow> xs)"

text \<open>
  A server with three pages; the second has no \<open>data\<close> and \<open>total\<close> is wrong
  throughout.
\<close>

definition server_pages :: "nat server" where
  "server_pages n req =
     (case map_of (snd req) ''page'' of
        Some (PInt p) \<Rightarrow>
          Ok \<lparr>data = (if p = 1 then Some [1, 2] else if p = 2 then None else Some [3]),
              meta = Some \<lparr>current_page = Some p, last_page = Some 3, total = Some 999\<rparr>\<rparr>
      | _ \<Rightarrow> Failed ''bad request'')"

definition pages_data :: "nat \<Rightarrow> nat list option" where
  "pages_data i = (if i = 0 then Some [1, 2] else if i = 1 then None else Some [3])"

text \<open>A server whose Retry-After is one second more than \<open>time.sleep\<close> accepts.\<close>

definition server_far_future :: "nat server" where
  "server_far_future n req = TooManyRequests (HeaderSeconds 9223372037)"

section \<open>Filtering out the qualified teams (\<open>main\<close>, step 6)\<close>

text \<open>
  The leaderboard is a Python list of dictionaries, and the list \<open>non_qualified\<close> built
  from it holds the same dictionaries, not copies. To tell an object from its value
  the entries live in a heap, a list indexed by addresses; a list of entries is a list
  of addresses. \<open>aggregate_skills\<close> builds one fresh dictionary per team, so storing its
  result puts entry \<open>i\<close> at address \<open>i\<close>.
\<close>

type_synonym addr = nat
type_synonym heap = "entry list"

definition store_leaderboard :: "entry list \<Rightarrow> addr list \<times> heap" where
  "store_leaderboard entries = ([0..<length entries], entries)"

text \<open>\<open>for i, entry in enumerate(non_qualified): entry["bubble_rank"] = i + 1\<close>\<close>

fun rerank :: "nat \<Rightarrow> addr list \<Rightarrow> heap \<Rightarrow> heap" where
  "rerank i [] h = h"
| "rerank i (a # as) h = rerank (i + 1) as (h[a := (h ! a)\<lparr>bubble_rank := Some (int i + 1)\<rparr>])"

definition filter_qualified :: "heap \<Rightarrow> addr list \<Rightarrow> int option set \<Rightarrow> addr list \<times> heap" where
  "filter_qualified h leaderboard qualified_team_ids =
     (let non_qualified = filter (\<lambda>t. team_id (h ! t) \<notin> qualified_team_ids) leaderboard
      in (non_qualified, rerank 0 non_qualified h))"

text \<open>
  Steps 5 and 6 of \<open>main\<close>: the leaderboard, the list \<open>non_qualified\<close> and the heap after
  the re-ranking.
\<close>

definition aggregate_and_filter ::
  "run list \<Rightarrow> int option set \<Rightarrow> addr list \<times> addr list \<times> heap" where
  "aggregate_and_filter all_skills qualified_team_ids =
     (let (leaderboard, h) = store_leaderboard (aggregate_skills all_skills);
          (non_qualified, h') = filter_qualified h leaderboard qualified_team_ids
      in (leaderboard, non_qualified, h'))"

text \<open>The entries a list of addresses stands for.\<close>

definition entries_of :: "heap \<Rightarrow> addr list \<Rightarrow> entry list" where
  "entries_of h as = map (\<lambda>a. h ! a) as"

section \<open>Properties of the aggregation\<close>

lemma group_runs_snoc: "group_runs (runs @ [r]) = add_run (group_runs runs) r"
  by (simp add: group_runs_def)

lemma map_fst_map_entry: "map fst (AList.map_entry k f xs) = map fst xs"
  by (induction xs) auto

lemma map_fst_add_run:
  "map fst (add_run te r) =
     (if run_key r \<in> set (map fst te) then map fst te else map fst te @ [run_key r])"
  by (auto simp: add_run_def Let_def map_fst_map_entry map_of_eq_None_iff)

lemma map_of_add_run:
  "map_of (add_run te r) k =
     (if k = run_key r
      then Some (let g = (case map_of te k of None \<Rightarrow> new_group r | Some g \<Rightarrow> g)
                 in if run_type r = ''driver''
                    then g\<lparr>te_driver := max (te_driver g) (run_score r)\<rparr>
                    else if run_type r = ''programming''
                    then g\<lparr>te_programming := max (te_programming g) (run_score r)\<rparr>
                    else g)
      else map_of te k)"
  by (auto simp: add_run_def Let_def map_of_map_entry map_add_def split: option.splits)

lemma first_pos_less: "k \<in> run_key ` set runs \<Longrightarrow> first_pos k runs < length runs"
  by (induction runs) (auto simp: first_pos_def)

lemma first_pos_key: "k \<in> run_key ` set runs \<Longrightarrow> run_key (runs ! first_pos k runs) = k"
  by (induction runs) (auto simp: first_pos_def)

lemma first_pos_snoc_old:
  "k \<in> run_key ` set runs \<Longrightarrow> first_pos k (runs @ [r]) = first_pos k runs"
  by (induction runs) (auto simp: first_pos_def)

lemma first_pos_snoc_new:
  "k \<notin> run_key ` set runs \<Longrightarrow> run_key r = k \<Longrightarrow> first_pos k (runs @ [r]) = length runs"
  by (induction runs) (auto simp: first_pos_def)

lemma scores_of_snoc:
  "scores_of (runs @ [r]) k ty =
     scores_of runs k ty @ (if run_key r = k \<and> run_type r = ty then [run_score r] else [])"
  by (simp add: scores_of_def)

lemma Max_insert_zero:
  "Max (insert (0::int) (set (xs @ [s]))) = max (Max (insert 0 (set xs))) s"
proof -
  have "insert 0 (set (xs @ [s])) = insert s (insert 0 (set xs))" by auto
  then show ?thesis
    using Max_insert [of "insert 0 (set xs)" s] by (simp add: max.commute)
qed

lemma best_score_snoc_same:
  assumes "run_key r = k" and "run_type r = ty"
  shows "best_score (runs @ [r]) k ty = max (best_score runs k ty) (run_score r)"
proof -
  have "scores_of (runs @ [r]) k ty = scores_of runs k ty @ [run_score r]"
    using assms by (simp add: scores_of_snoc)
  then have "best_score (runs @ [r]) k ty
      = Max (insert 0 (set (scores_of runs k ty @ [run_score r])))"
    by (simp only: best_score_def)
  also have "\<dots> = max (Max (insert 0 (set (scores_of runs k ty)))) (run_score r)"
    by (rule Max_insert_zero)
  finally show ?thesis by (simp only: best_score_def)
qed

lemma best_score_snoc_other:
  assumes "\<not> (run_key r = k \<and> run_type r = ty)"
  shows "best_score (runs @ [r]) k ty = best_score runs k ty"
proof -
  have "scores_of (runs @ [r]) k ty = scores_of runs k ty"
    using assms by (simp add: scores_of_snoc)
  then show ?thesis by (simp only: best_score_def)
qed

lemma best_score_snoc:
  "best_score (runs @ [r]) k ty =
     (if run_key r = k \<and> run_type r = ty then max (best_score runs k ty) (run_score r)
      else best_score runs k ty)"
  using best_score_snoc_same [of r k ty runs] best_score_snoc_other [of r k ty runs]
  by (cases "run_key r = k \<and> run_type r = ty") auto

lemma best_score_absent: "k \<notin> run_key ` set runs \<Longrightarrow> best_score runs k ty = 0"
proof -
  assume "k \<notin> run_key ` set runs"
  then have "scores_of runs k ty = []"
    by (auto simp: scores_of_def filter_empty_conv)
  then show ?thesis by (simp add: best_score_def)
qed

lemma group_runs_map_of:
  "map_of (group_runs runs) k =
     (if k \<in> run_key ` set runs then Some (group_of runs k) else None)"
proof (induction runs rule: rev_induct)
  case Nil
  show ?case by (simp add: group_runs_def)
next
  case (snoc r runs)
  show ?case
  proof (cases "k = run_key r")
    case False
    then show ?thesis
      using snoc
      by (auto simp: group_runs_snoc map_of_add_run group_of_def first_run_def first_pos_snoc_old
          best_score_snoc nth_append first_pos_less)
  next
    case True
    show ?thesis
    proof (cases "k \<in> run_key ` set runs")
      case True
      with \<open>k = run_key r\<close> snoc show ?thesis
        by (simp add: group_runs_snoc map_of_add_run group_of_def first_run_def first_pos_snoc_old
          best_score_snoc nth_append first_pos_less Let_def)
    next
      case False
      with \<open>k = run_key r\<close> snoc show ?thesis
        by (simp add: group_runs_snoc map_of_add_run group_of_def first_run_def first_pos_snoc_new
          best_score_snoc best_score_absent nth_append Let_def new_group_def)
    qed
  qed
qed

lemma keys_add_run: "fst ` set (add_run te r) = insert (run_key r) (fst ` set te)"
proof -
  have "set (map fst (add_run te r)) = insert (run_key r) (set (map fst te))"
    unfolding map_fst_add_run by (cases "run_key r \<in> set (map fst te)") (simp_all add: insert_absorb)
  then show ?thesis by (simp only: set_map)
qed

lemma group_runs_Nil: "group_runs [] = []"
  by (simp add: group_runs_def)

lemma group_runs_keys: "fst ` set (group_runs runs) = run_key ` set runs"
proof (induction runs rule: rev_induct)
  case Nil
  show ?case by (simp add: group_runs_Nil)
next
  case (snoc r runs)
  have "fst ` set (group_runs (runs @ [r])) = insert (run_key r) (fst ` set (group_runs runs))"
    by (simp only: group_runs_snoc keys_add_run)
  then show ?case using snoc by simp
qed

lemma group_runs_distinct: "distinct (map fst (group_runs runs))"
proof (induction runs rule: rev_induct)
  case Nil
  show ?case by (simp add: group_runs_Nil)
next
  case (snoc r runs)
  then show ?case
    unfolding group_runs_snoc map_fst_add_run
    by (cases "run_key r \<in> set (map fst (group_runs runs))") simp_all
qed

lemma group_runs_order:
  "sorted_wrt (\<lambda>k k'. first_pos k runs < first_pos k' runs) (map fst (group_runs runs))"
proof (induction runs rule: rev_induct)
  case Nil
  show ?case by (simp add: group_runs_def)
next
  case (snoc r runs)
  let ?ks = "map fst (group_runs runs)"
  have mem: "set ?ks = run_key ` set runs"
    using group_runs_keys [of runs] by simp
  have old: "sorted_wrt (\<lambda>k k'. first_pos k (runs @ [r]) < first_pos k' (runs @ [r])) ?ks"
    using snoc
  proof (rule sorted_wrt_mono_rel [rotated])
    fix x y
    assume "x \<in> set ?ks" "y \<in> set ?ks" "first_pos x runs < first_pos y runs"
    then show "first_pos x (runs @ [r]) < first_pos y (runs @ [r])"
      by (simp only: mem first_pos_snoc_old)
  qed
  show ?case
  proof (cases "run_key r \<in> set ?ks")
    case True
    then show ?thesis using old by (simp only: group_runs_snoc map_fst_add_run if_True)
  next
    case False
    have "first_pos k (runs @ [r]) < first_pos (run_key r) (runs @ [r])" if "k \<in> set ?ks" for k
    proof -
      from that mem have k: "k \<in> run_key ` set runs" by simp
      from False mem have r: "run_key r \<notin> run_key ` set runs" by simp
      show ?thesis
        using first_pos_less [OF k] first_pos_snoc_old [OF k, of r] first_pos_snoc_new [OF r refl]
        by simp
    qed
    with old have "sorted_wrt (\<lambda>k k'. first_pos k (runs @ [r]) < first_pos k' (runs @ [r]))
        (?ks @ [run_key r])"
      by (simp add: sorted_wrt_append)
    with False show ?thesis by (simp only: group_runs_snoc map_fst_add_run if_False)
  qed
qed

lemma select_best_Nil: "select_best [] = []"
  by (simp add: select_best_def)

lemma select_best_snoc: "select_best (te @ [x]) = best_step (select_best te) x"
  by (simp add: select_best_def)

lemma map_of_best_step:
  "map_of (best_step best kd) t =
     (if t = te_team_id (snd kd)
      then (case map_of best t of
              None \<Rightarrow> Some (make_entry (snd kd))
            | Some b \<Rightarrow> if group_combined (snd kd) > combined b
                       then Some (make_entry (snd kd)) else Some b)
      else map_of best t)"
  by (simp add: best_step_def Let_def update_conv' group_combined_def split: option.splits)

lemma combined_make_entry: "combined (make_entry d) = group_combined d"
  by (simp add: make_entry_def group_combined_def)

lemma select_best_None:
  "map_of (select_best te) t = None \<longleftrightarrow> t \<notin> (te_team_id \<circ> snd) ` set te"
proof (induction te rule: rev_induct)
  case Nil
  show ?case by (simp add: select_best_Nil)
next
  case (snoc x te)
  then show ?case
    by (simp add: select_best_snoc map_of_best_step split: option.splits)
qed

lemma select_best_Some:
  "map_of (select_best te) t = Some e \<Longrightarrow>
     \<exists>pre k d post. te = pre @ (k, d) # post \<and> te_team_id d = t \<and> e = make_entry d \<and>
       (\<forall>x \<in> set pre. te_team_id (snd x) = t \<longrightarrow> group_combined (snd x) < group_combined d) \<and>
       (\<forall>x \<in> set post. te_team_id (snd x) = t \<longrightarrow> group_combined (snd x) \<le> group_combined d)"
proof (induction te arbitrary: e rule: rev_induct)
  case Nil
  then show ?case by (simp add: select_best_Nil)
next
  case (snoc x te)
  obtain kx dx where x: "x = (kx, dx)" by (cases x)
  show ?case
  proof (cases "t = te_team_id dx")
    case False
    with snoc.prems x have "map_of (select_best te) t = Some e"
      by (simp add: select_best_snoc map_of_best_step)
    from snoc.IH [OF this] obtain pre k d post where
      *: "te = pre @ (k, d) # post" "te_team_id d = t" "e = make_entry d"
      "\<forall>x \<in> set pre. te_team_id (snd x) = t \<longrightarrow> group_combined (snd x) < group_combined d"
      "\<forall>x \<in> set post. te_team_id (snd x) = t \<longrightarrow> group_combined (snd x) \<le> group_combined d"
      by blast
    have "te @ [x] = pre @ (k, d) # (post @ [x])" using * by simp
    moreover have "\<forall>y \<in> set (post @ [x]). te_team_id (snd y) = t \<longrightarrow>
        group_combined (snd y) \<le> group_combined d"
      using * False x by auto
    ultimately show ?thesis using * by blast
  next
    case True
    show ?thesis
    proof (cases "map_of (select_best te) t")
      case None
      then have none: "\<forall>y \<in> set te. te_team_id (snd y) \<noteq> t"
        using select_best_None [of te t] by auto
      from None True snoc.prems x have "e = make_entry dx"
        by (simp add: select_best_snoc map_of_best_step)
      with True none x have "te @ [x] = te @ (kx, dx) # [] \<and> te_team_id dx = t \<and> e = make_entry dx \<and>
         (\<forall>y \<in> set te. te_team_id (snd y) = t \<longrightarrow> group_combined (snd y) < group_combined dx) \<and>
         (\<forall>y \<in> set []. te_team_id (snd y) = t \<longrightarrow> group_combined (snd y) \<le> group_combined dx)"
        by simp
      then show ?thesis by blast
    next
      case (Some b)
      from snoc.IH [OF this] obtain pre k d post where
        *: "te = pre @ (k, d) # post" "te_team_id d = t" "b = make_entry d"
        "\<forall>x \<in> set pre. te_team_id (snd x) = t \<longrightarrow> group_combined (snd x) < group_combined d"
        "\<forall>x \<in> set post. te_team_id (snd x) = t \<longrightarrow> group_combined (snd x) \<le> group_combined d"
        by blast
      have cb: "combined b = group_combined d" using * by (simp add: combined_make_entry)
      show ?thesis
      proof (cases "group_combined dx > group_combined d")
        case gt: True
        with Some True snoc.prems x cb have e: "e = make_entry dx"
          by (simp add: select_best_snoc map_of_best_step)
        have "\<forall>y \<in> set te. te_team_id (snd y) = t \<longrightarrow> group_combined (snd y) < group_combined dx"
          using * gt by fastforce
        with e True x have "te @ [x] = te @ (kx, dx) # [] \<and> te_team_id dx = t \<and> e = make_entry dx \<and>
         (\<forall>y \<in> set te. te_team_id (snd y) = t \<longrightarrow> group_combined (snd y) < group_combined dx) \<and>
         (\<forall>y \<in> set []. te_team_id (snd y) = t \<longrightarrow> group_combined (snd y) \<le> group_combined dx)"
          by simp
        then show ?thesis by blast
      next
        case le: False
        with Some True snoc.prems x cb have e: "e = b"
          by (simp add: select_best_snoc map_of_best_step)
        have "te @ [x] = pre @ (k, d) # (post @ [x])" using * by simp
        moreover have "\<forall>y \<in> set (post @ [x]). te_team_id (snd y) = t \<longrightarrow>
            group_combined (snd y) \<le> group_combined d"
          using * le x by auto
        ultimately show ?thesis using * e by blast
      qed
    qed
  qed
qed

lemma keys_best_step:
  "map fst (best_step best kd) =
     (if te_team_id (snd kd) \<in> set (map fst best) then map fst best
      else map fst best @ [te_team_id (snd kd)])"
proof (cases "map_of best (te_team_id (snd kd))")
  case None
  then have "te_team_id (snd kd) \<notin> fst ` set best"
    by (simp add: map_of_eq_None_iff)
  with None show ?thesis
    by (simp add: best_step_def Let_def update_keys)
next
  case (Some b)
  then have "te_team_id (snd kd) \<in> fst ` set best"
    by (metis map_of_eq_None_iff option.distinct(1))
  with Some show ?thesis
    by (simp add: best_step_def Let_def update_keys)
qed

lemma select_best_distinct: "distinct (map fst (select_best te))"
proof (induction te rule: rev_induct)
  case Nil
  show ?case by (simp add: select_best_Nil)
next
  case (snoc x te)
  then show ?case
    unfolding select_best_snoc keys_best_step
    by (cases "te_team_id (snd x) \<in> set (map fst (select_best te))") simp_all
qed

lemma length_assign_ranks: "length (assign_ranks xs) = length xs"
  by (simp add: assign_ranks_def)

lemma assign_ranks_nth:
  "i < length xs \<Longrightarrow> assign_ranks xs ! i = (xs ! i)\<lparr>rank := Some (int i + 1)\<rparr>"
  by (simp add: assign_ranks_def nth_enumerate_eq)

lemma in_assign_ranksD:
  assumes "e \<in> set (assign_ranks xs)"
  shows "\<exists>i<length xs. e = (xs ! i)\<lparr>rank := Some (int i + 1)\<rparr>"
proof -
  from assms obtain i where i: "i < length (assign_ranks xs)" and e: "assign_ranks xs ! i = e"
    unfolding in_set_conv_nth by blast
  from i have i': "i < length xs" by (simp only: length_assign_ranks)
  from e assign_ranks_nth [OF i'] have "e = (xs ! i)\<lparr>rank := Some (int i + 1)\<rparr>"
    by (simp only:)
  with i' show ?thesis by blast
qed

lemma in_assign_ranksI:
  assumes "i < length xs"
  shows "(xs ! i)\<lparr>rank := Some (int i + 1)\<rparr> \<in> set (assign_ranks xs)"
proof -
  from assms have "i < length (assign_ranks xs)" by (simp only: length_assign_ranks)
  then have "assign_ranks xs ! i \<in> set (assign_ranks xs)" by (rule nth_mem)
  then show ?thesis by (simp only: assign_ranks_nth [OF assms])
qed

lemma team_of_group_of:
  "k \<in> run_key ` set runs \<Longrightarrow> te_team_id (group_of runs k) = fst k"
  using first_pos_key [of k runs]
  by (auto simp: group_of_def first_run_def new_group_def run_key_def)

lemma group_runs_member:
  "(k, d) \<in> set (group_runs runs) \<longleftrightarrow> k \<in> run_key ` set runs \<and> d = group_of runs k"
proof -
  have "(k, d) \<in> set (group_runs runs) \<longleftrightarrow> map_of (group_runs runs) k = Some d"
    using group_runs_distinct [of runs] by simp
  then show ?thesis by (auto simp: group_runs_map_of)
qed

lemma best_entry_origin:
  assumes "(t, e) \<in> set (select_best (group_runs runs))"
  shows "\<exists>k. k \<in> run_key ` set runs \<and> fst k = t \<and> e = make_entry (group_of runs k) \<and>
    (\<forall>k' \<in> run_key ` set runs. fst k' = t \<and> k' \<noteq> k \<longrightarrow>
       group_combined (group_of runs k') < group_combined (group_of runs k) \<or>
       (group_combined (group_of runs k') = group_combined (group_of runs k) \<and>
        first_pos k runs < first_pos k' runs))"
proof -
  let ?te = "group_runs runs"
  from assms have "map_of (select_best ?te) t = Some e"
    using select_best_distinct [of ?te] by simp
  from select_best_Some [OF this] obtain pre k d post where
    te: "?te = pre @ (k, d) # post" and t: "te_team_id d = t" and e: "e = make_entry d" and
    pre: "\<forall>x \<in> set pre. te_team_id (snd x) = t \<longrightarrow> group_combined (snd x) < group_combined d" and
    post: "\<forall>x \<in> set post. te_team_id (snd x) = t \<longrightarrow> group_combined (snd x) \<le> group_combined d"
    by blast
  have "(k, d) \<in> set ?te" by (simp add: te)
  then have k: "k \<in> run_key ` set runs" and d: "d = group_of runs k"
    by (simp_all add: group_runs_member)
  have fk: "fst k = t" using team_of_group_of [OF k] d t by simp
  have ord: "\<forall>x \<in> set post. first_pos k runs < first_pos (fst x) runs"
    using group_runs_order [of runs] by (simp add: te sorted_wrt_append)
  have "group_combined (group_of runs k') < group_combined (group_of runs k) \<or>
       (group_combined (group_of runs k') = group_combined (group_of runs k) \<and>
        first_pos k runs < first_pos k' runs)"
    if k': "k' \<in> run_key ` set runs" and fk': "fst k' = t" and ne: "k' \<noteq> k" for k'
  proof -
    have mem: "(k', group_of runs k') \<in> set ?te" using k' by (simp add: group_runs_member)
    have tk': "te_team_id (group_of runs k') = t" using team_of_group_of [OF k'] fk' by simp
    from mem ne have "(k', group_of runs k') \<in> set pre \<or> (k', group_of runs k') \<in> set post"
      by (auto simp: te)
    then show ?thesis
    proof
      assume "(k', group_of runs k') \<in> set pre"
      with pre tk' d show ?thesis by fastforce
    next
      assume in_post: "(k', group_of runs k') \<in> set post"
      with post tk' d have "group_combined (group_of runs k') \<le> group_combined (group_of runs k)"
        by fastforce
      moreover from in_post ord have "first_pos k runs < first_pos k' runs" by fastforce
      ultimately show ?thesis by linarith
    qed
  qed
  with k fk e d show ?thesis by blast
qed

lemma aggregate_entry_origin:
  assumes "e \<in> set (aggregate_skills runs)"
  shows "\<exists>k n. k \<in> run_key ` set runs \<and> e = (make_entry (group_of runs k))\<lparr>rank := Some n\<rparr> \<and>
    (\<forall>k' \<in> run_key ` set runs. fst k' = fst k \<and> k' \<noteq> k \<longrightarrow>
       group_combined (group_of runs k') < group_combined (group_of runs k) \<or>
       (group_combined (group_of runs k') = group_combined (group_of runs k) \<and>
        first_pos k runs < first_pos k' runs))"
proof -
  let ?best = "select_best (group_runs runs)"
  let ?s = "sort_key sort_order (map snd ?best)"
  from assms have "e \<in> set (assign_ranks ?s)" by (simp only: aggregate_skills_def)
  from in_assign_ranksD [OF this] obtain i where i: "i < length ?s"
    and e: "e = (?s ! i)\<lparr>rank := Some (int i + 1)\<rparr>"
    by blast
  from i have "?s ! i \<in> set ?s" by (rule nth_mem)
  then have "?s ! i \<in> snd ` set ?best" by simp
  then obtain t where "(t, ?s ! i) \<in> set ?best" by force
  from best_entry_origin [OF this] obtain k where
    k: "k \<in> run_key ` set runs" "fst k = t" "?s ! i = make_entry (group_of runs k)"
    "\<forall>k' \<in> run_key ` set runs. fst k' = t \<and> k' \<noteq> k \<longrightarrow>
       group_combined (group_of runs k') < group_combined (group_of runs k) \<or>
       (group_combined (group_of runs k') = group_combined (group_of runs k) \<and>
        first_pos k runs < first_pos k' runs)"
    by blast
  from e k(3) have "e = (make_entry (group_of runs k))\<lparr>rank := Some (int i + 1)\<rparr>"
    by (simp only:)
  with k(1,2,4) show ?thesis by blast
qed

lemma aggregate_entry_exists:
  assumes "(t, e0) \<in> set (select_best (group_runs runs))"
  shows "\<exists>n. e0\<lparr>rank := Some n\<rparr> \<in> set (aggregate_skills runs)"
proof -
  let ?best = "select_best (group_runs runs)"
  let ?s = "sort_key sort_order (map snd ?best)"
  from assms have "e0 \<in> snd ` set ?best" by (rule rev_image_eqI) simp
  then have "e0 \<in> set ?s" by simp
  then obtain i where i: "i < length ?s" and "?s ! i = e0"
    unfolding in_set_conv_nth by blast
  with in_assign_ranksI [OF i] have "e0\<lparr>rank := Some (int i + 1)\<rparr> \<in> set (assign_ranks ?s)"
    by (simp only:)
  then have "e0\<lparr>rank := Some (int i + 1)\<rparr> \<in> set (aggregate_skills runs)"
    by (simp only: aggregate_skills_def)
  then show ?thesis ..
qed

lemmas agg_defs = aggregate_skills_def group_runs_def add_run_def run_key_def run_team_id_def
  run_event_id_def get_info_def mk_run_def new_group_def run_type_def run_score_def
  select_best_def best_step_def make_entry_def sort_order_def assign_ranks_def Let_def

lemma best_score_nonneg:
  assumes "\<forall>s \<in> set (scores_of runs k ty). 0 \<le> s"
  shows "best_score runs k ty = max_score (scores_of runs k ty)"
proof (cases "scores_of runs k ty = []")
  case True
  then show ?thesis by (simp add: best_score_def max_score_def)
next
  case False
  then have "Max (insert 0 (set (scores_of runs k ty))) = max 0 (Max (set (scores_of runs k ty)))"
    by simp
  moreover have "0 \<le> Max (set (scores_of runs k ty))"
  proof -
    from False obtain x where x: "x \<in> set (scores_of runs k ty)"
      by (cases "scores_of runs k ty") auto
    with assms have "0 \<le> x" by blast
    also from x have "x \<le> Max (set (scores_of runs k ty))" by simp
    finally show ?thesis .
  qed
  ultimately show ?thesis using False by (simp add: best_score_def max_score_def)
qed

lemma scores_of_subset: "set (scores_of runs k ty) \<subseteq> run_score ` set runs"
  by (auto simp: scores_of_def)

lemma fields_of_origin:
  assumes "e = (make_entry (group_of runs k))\<lparr>rank := Some n\<rparr>" and "k \<in> run_key ` set runs"
  shows "team_id e = fst k" and "driver e = best_score runs k ''driver''"
    and "programming e = best_score runs k ''programming''"
    and "combined e = group_total runs k"
    and "event_name e = te_event_name (new_group (first_run runs k))"
    and "team_number e = te_team_number (new_group (first_run runs k))"
    and "rank e = Some n"
  using assms team_of_group_of [OF assms(2)]
  by (simp_all add: make_entry_def group_of_def group_total_def first_run_def)

lemma group_combined_group_of: "group_combined (group_of runs k) = group_total runs k"
  by (simp add: group_combined_def group_of_def group_total_def)

lemma run_team_id_key: "run_team_id r = fst (run_key r)"
  by (simp add: run_key_def)

lemma team_has_group:
  assumes "t \<in> run_team_id ` set runs"
  shows "\<exists>e0. (t, e0) \<in> set (select_best (group_runs runs))"
proof -
  from assms obtain r where r: "r \<in> set runs" and t: "t = fst (run_key r)"
    by (auto simp: run_team_id_key)
  then have k: "run_key r \<in> run_key ` set runs" by simp
  then have mem: "(run_key r, group_of runs (run_key r)) \<in> set (group_runs runs)"
    by (simp add: group_runs_member)
  have "(te_team_id \<circ> snd) (run_key r, group_of runs (run_key r)) = t"
    using team_of_group_of [OF k] t by simp
  with mem have "t \<in> (te_team_id \<circ> snd) ` set (group_runs runs)"
    by (rule rev_image_eqI [OF _ sym])
  then have "map_of (select_best (group_runs runs)) t \<noteq> None"
    by (simp only: select_best_None not_not)
  then obtain e0 where "map_of (select_best (group_runs runs)) t = Some e0" by blast
  then show ?thesis by (blast dest: map_of_SomeD)
qed

lemma aggregate_team_exists:
  assumes "t \<in> run_team_id ` set runs"
  shows "\<exists>k n. k \<in> run_key ` set runs \<and> fst k = t \<and>
           (make_entry (group_of runs k))\<lparr>rank := Some n\<rparr> \<in> set (aggregate_skills runs)"
proof -
  from team_has_group [OF assms] obtain e0 where
    mem: "(t, e0) \<in> set (select_best (group_runs runs))" ..
  from best_entry_origin [OF mem] obtain k where
    k: "k \<in> run_key ` set runs" "fst k = t" "e0 = make_entry (group_of runs k)" by blast
  from aggregate_entry_exists [OF mem] k show ?thesis by blast
qed

lemma select_best_team_id:
  assumes "(t, e) \<in> set (select_best (group_runs runs))"
  shows "team_id e = t"
proof -
  from best_entry_origin [OF assms] obtain k where
    k: "k \<in> run_key ` set runs" "fst k = t" "e = make_entry (group_of runs k)" by blast
  then show ?thesis using team_of_group_of [OF k(1)] by (simp add: make_entry_def)
qed

lemma team_id_assign_ranks: "map team_id (assign_ranks xs) = map team_id xs"
  by (rule nth_equalityI) (simp_all add: length_assign_ranks assign_ranks_nth)

lemma aggregate_skills_distinct: "distinct (map team_id (aggregate_skills runs))"
proof -
  let ?best = "select_best (group_runs runs)"
  have "map team_id (map snd ?best) = map fst ?best"
    using select_best_team_id [of _ _ runs] by (auto intro: map_cong)
  then have "distinct (map team_id (map snd ?best))"
    using select_best_distinct [of "group_runs runs"] by (simp only:)
  then have "distinct (map snd ?best) \<and> inj_on team_id (set (map snd ?best))"
    by (simp only: distinct_map)
  then have "distinct (sort_key sort_order (map snd ?best)) \<and>
             inj_on team_id (set (sort_key sort_order (map snd ?best)))"
    by (simp only: distinct_sort set_sort)
  then have "distinct (map team_id (sort_key sort_order (map snd ?best)))"
    by (simp only: distinct_map)
  then show ?thesis by (simp only: aggregate_skills_def team_id_assign_ranks)
qed

lemma aggregate_skills_unique:
  assumes "e \<in> set (aggregate_skills runs)" and "e' \<in> set (aggregate_skills runs)"
    and "team_id e = team_id e'"
  shows "e = e'"
proof -
  have "inj_on team_id (set (aggregate_skills runs))"
    using aggregate_skills_distinct [of runs] by (simp only: distinct_map)
  then show ?thesis using assms(3,1,2) by (rule inj_onD)
qed

lemmas spec_defs = scores_of_def best_score_def group_total_def first_pos_def first_run_def

lemma sort_order_le: "sort_order a \<le> sort_order b \<longleftrightarrow> ranks_before a b"
  by (auto simp: sort_order_def ranks_before_def)

lemma sort_order_assign_ranks: "map sort_order (assign_ranks xs) = map sort_order xs"
  by (rule nth_equalityI) (simp_all add: length_assign_ranks assign_ranks_nth sort_order_def)

lemma aggregate_skills_sorted: "sorted_wrt ranks_before (aggregate_skills runs)"
proof -
  have "sorted (map sort_order (sort_key sort_order (before_sort runs)))"
    by (rule sorted_sort_key)
  then have "sorted (map sort_order (aggregate_skills runs))"
    by (simp only: aggregate_skills_def before_sort_def sort_order_assign_ranks)
  then have "sorted_wrt (\<lambda>a b. sort_order a \<le> sort_order b) (aggregate_skills runs)"
    by (simp only: sorted_wrt_map)
  then show ?thesis by (simp only: sort_order_le [abs_def]) 
qed

lemma rank_make_entry: "rank (make_entry d) = None"
  by (simp add: make_entry_def)

lemma before_sort_unranked: "e \<in> set (before_sort runs) \<Longrightarrow> rank e = None"
proof -
  assume "e \<in> set (before_sort runs)"
  then obtain t where "(t, e) \<in> set (select_best (group_runs runs))"
    by (auto simp: before_sort_def)
  from best_entry_origin [OF this] show ?thesis by (auto simp: rank_make_entry)
qed

lemma unranked_assign_ranks:
  assumes "\<forall>e \<in> set xs. rank e = None"
  shows "map unranked (assign_ranks xs) = xs"
proof (rule nth_equalityI)
  show "length (map unranked (assign_ranks xs)) = length xs"
    by (simp add: length_assign_ranks)
next
  fix i assume "i < length (map unranked (assign_ranks xs))"
  then have i: "i < length xs" by (simp add: length_assign_ranks)
  then have "rank (xs ! i) = None" using assms by simp
  then have "(xs ! i)\<lparr>rank := None\<rparr> = xs ! i" by simp
  with i show "map unranked (assign_ranks xs) ! i = xs ! i"
    by (simp add: length_assign_ranks assign_ranks_nth unranked_def)
qed

lemma aggregate_skills_unranked:
  "map unranked (aggregate_skills runs) = sort_key sort_order (before_sort runs)"
proof -
  have "\<forall>e \<in> set (sort_key sort_order (before_sort runs)). rank e = None"
    using before_sort_unranked by simp
  from unranked_assign_ranks [OF this] show ?thesis
    by (simp only: aggregate_skills_def before_sort_def)
qed

lemma same_keys_sort_order: "same_keys c p e \<longleftrightarrow> sort_order e = (- c, - p)"
  by (auto simp: same_keys_def sort_order_def)

lemma aggregate_skills_stable:
  "filter (same_keys c p) (map unranked (aggregate_skills runs)) =
   filter (same_keys c p) (before_sort runs)"
  unfolding aggregate_skills_unranked same_keys_sort_order [abs_def]
  by (rule sort_key_stable)

lemma aggregate_skills_rank:
  "i < length (aggregate_skills runs) \<Longrightarrow> rank (aggregate_skills runs ! i) = Some (int i + 1)"
  by (simp add: aggregate_skills_def length_assign_ranks assign_ranks_nth)

lemma ties_value:
  "aggregate_skills scenario_ties =
     [\<lparr>team_id = Some 4, team_number = ''4D'', event_name = ''E2'', driver = 60,
        programming = 0, combined = 60, rank = Some 1, bubble_rank = None\<rparr>,
      \<lparr>team_id = Some 2, team_number = ''2B'', event_name = ''E1'', driver = 0,
        programming = 50, combined = 50, rank = Some 2, bubble_rank = None\<rparr>,
      \<lparr>team_id = Some 1, team_number = ''1A'', event_name = ''E1'', driver = 50,
        programming = 0, combined = 50, rank = Some 3, bubble_rank = None\<rparr>,
      \<lparr>team_id = Some 3, team_number = ''3C'', event_name = ''E2'', driver = 50,
        programming = 0, combined = 50, rank = Some 4, bubble_rank = None\<rparr>]"
  by (simp add: scenario_ties_def agg_defs)

lemma ties_before:
  "filter (same_keys 50 0) (before_sort scenario_ties) =
     [\<lparr>team_id = Some 1, team_number = ''1A'', event_name = ''E1'', driver = 50,
        programming = 0, combined = 50, rank = None, bubble_rank = None\<rparr>,
      \<lparr>team_id = Some 3, team_number = ''3C'', event_name = ''E2'', driver = 50,
        programming = 0, combined = 50, rank = None, bubble_rank = None\<rparr>]"
  by (simp add: scenario_ties_def before_sort_def same_keys_def agg_defs)

lemma add_run_unrecognized:
  assumes "unrecognized r"
  shows "add_run te r =
    (if map_of te (run_key r) = None then te @ [(run_key r, new_group r)] else te)"
  using assms by (simp add: add_run_def unrecognized_def Let_def)

lemma new_group_zero: "te_driver (new_group r) = 0 \<and> te_programming (new_group r) = 0"
  by (simp add: new_group_def)

lemma unrecognized_team_zero:
  assumes t: "t \<in> run_team_id ` set runs"
    and un: "\<forall>r \<in> set runs. run_team_id r = t \<longrightarrow> unrecognized r"
  shows "\<exists>e \<in> set (aggregate_skills runs).
           team_id e = t \<and> driver e = 0 \<and> programming e = 0 \<and> combined e = 0"
proof -
  from aggregate_team_exists [OF t] obtain k n where
    k: "k \<in> run_key ` set runs" and fk: "fst k = t" and
    mem: "(make_entry (group_of runs k))\<lparr>rank := Some n\<rparr> \<in> set (aggregate_skills runs)"
    by blast
  let ?e = "(make_entry (group_of runs k))\<lparr>rank := Some n\<rparr>"
  note f = fields_of_origin [OF refl k, of n]
  have none: "scores_of runs k ty = []" if "ty = ''driver'' \<or> ty = ''programming''" for ty
  proof -
    have "\<not> (run_key r = k \<and> run_type r = ty)" if "r \<in> set runs" for r
    proof
      assume a: "run_key r = k \<and> run_type r = ty"
      then have "run_team_id r = t" using fk by (simp add: run_team_id_key)
      with un \<open>r \<in> set runs\<close> have "unrecognized r" by blast
      with a \<open>ty = ''driver'' \<or> ty = ''programming''\<close> show False
        by (auto simp: unrecognized_def)
    qed
    then show ?thesis by (simp add: scores_of_def filter_empty_conv)
  qed
  have "best_score runs k ''driver'' = 0" "best_score runs k ''programming'' = 0"
    by (simp_all add: best_score_def none)
  with f fk have "team_id ?e = t \<and> driver ?e = 0 \<and> programming ?e = 0 \<and> combined ?e = 0"
    by (simp add: group_total_def)
  with mem show ?thesis by (rule rev_bexI)
qed

lemmas at_defs = scenario_two_teams_def scenario_100A_def scenario_200B_def mk_run_def
  scores_at_def team_of_def event_of_def score_of_def max_score_def

section \<open>Properties of the client\<close>

lemma attempts_3: "[0..<MAX_RETRIES] = [0, 1, 2]"
  by (simp add: MAX_RETRIES_def upt_rec)

lemma get_attempts_Ok:
  assumes "srv (request_count st) req = Ok body"
  shows "get_attempts srv req (a # rest) st = (Inr body, requested st req)"
  using assms by (simp add: requested_def)

lemma get_attempts_Failed:
  assumes "srv (request_count st) req = Failed e"
  shows "get_attempts srv req (a # rest) st =
    (if a < 2 then get_attempts srv req rest (slept (requested st req) (2 ^ a))
     else (Inl (RequestException e), requested st req))"
  using assms by (simp add: requested_def slept_def MAX_RETRIES_def)

lemma get_attempts_429:
  assumes "srv (request_count st) req = TooManyRequests h"
  shows "get_attempts srv req (a # rest) st =
    (case retry_wait h of
       Inl e \<Rightarrow> (Inl e, requested st req)
     | Inr w \<Rightarrow>
         (case sleep_error w of
            Some e \<Rightarrow> (Inl e, requested st req)
          | None \<Rightarrow> get_attempts srv req rest (slept (requested st req) w)))"
  using assms by (simp add: requested_def slept_def split: sum.splits option.splits)

lemma count_requested [simp]: "request_count (requested st req) = request_count st + 1"
  by (simp add: requested_def)

lemma count_slept [simp]: "request_count (slept st n) = request_count st"
  by (simp add: slept_def)

lemma get_attempts_count:
  "request_count (snd (get_attempts srv req as st)) \<le> request_count st + length as"
proof (induction as arbitrary: st)
  case Nil
  show ?case by simp
next
  case (Cons a as)
  show ?case
  proof (cases "srv (request_count st) req")
    case (Ok body)
    then show ?thesis by (simp add: get_attempts_Ok [where srv = srv and st = st and req = req] del: get_attempts.simps)
  next
    case (Failed e)
    show ?thesis
      using Cons [of "slept (requested st req) (2 ^ a)"]
      by (simp add: get_attempts_Failed [where srv = srv and st = st and req = req, OF Failed] del: get_attempts.simps)
  next
    case (TooManyRequests h)
    show ?thesis
    proof (cases "retry_wait h")
      case (Inl e)
      then show ?thesis by (simp add: get_attempts_429 [where srv = srv and st = st and req = req, OF TooManyRequests] del: get_attempts.simps)
    next
      case (Inr w)
      then show ?thesis
        using Cons [of "slept (requested st req) w"]
        by (simp add: get_attempts_429 [where srv = srv and st = st and req = req, OF TooManyRequests]
            split: option.splits del: get_attempts.simps)
    qed
  qed
qed

lemma get_count_le:
  "request_count (snd (RobotEventsAPI_get srv endpoint ps st)) \<le> request_count st + 3"
  using get_attempts_count [of srv "(endpoint, ps)" "[0..<MAX_RETRIES]" st]
  by (simp add: RobotEventsAPI_get_def MAX_RETRIES_def)

lemma get_Ok:
  assumes "srv (request_count st) (endpoint, ps) = Ok body"
  shows "RobotEventsAPI_get srv endpoint ps st = (Inr body, requested st (endpoint, ps))"
  unfolding RobotEventsAPI_get_def attempts_3
  by (rule get_attempts_Ok [where srv = srv and st = st and req = "(endpoint, ps)", OF assms])

lemma upt_0_3: "[0..<3] = [0, 1, 2]"
  by (simp add: upt_rec)

lemmas get_unfold = RobotEventsAPI_get_def MAX_RETRIES_def upt_0_3 retry_trace_def
  after_call_def Let_def

lemma sleep_error_None: "sleep_error w = None \<longleftrightarrow> 0 \<le> w \<and> w \<le> sleep_limit"
  by (auto simp: sleep_error_def sleep_limit_def)

lemma get_attempts_starts:
  "\<exists>tr. trace (snd (get_attempts srv req (a # rest) st)) = trace st @ [Pace, Get req] @ tr"
proof -
  have ext: "\<exists>tr. trace (snd (get_attempts srv req as st')) = trace st' @ tr" for as st'
  proof (induction as arbitrary: st')
    case Nil
    show ?case by simp
  next
    case (Cons b bs)
    show ?case
    proof (cases "srv (request_count st') req")
      case (Ok body)
      then show ?thesis by simp
    next
      case (Failed e)
      show ?thesis
        using Cons [of "slept (requested st' req) (2 ^ b)"]
        by (auto simp: get_attempts_Failed [where srv = srv and st = st' and req = req, OF Failed]
            requested_def slept_def simp del: get_attempts.simps)
    next
      case (TooManyRequests h)
      show ?thesis
      proof (cases "retry_wait h")
        case (Inl e)
        then show ?thesis
          by (simp add: get_attempts_429 [where srv = srv and st = st' and req = req,
                OF TooManyRequests] requested_def del: get_attempts.simps)
      next
        case (Inr w)
        then show ?thesis
          using Cons [of "slept (requested st' req) w"]
          by (auto simp: get_attempts_429 [where srv = srv and st = st' and req = req,
                OF TooManyRequests] requested_def slept_def
              split: option.splits simp del: get_attempts.simps)
      qed
    qed
  qed
  show ?thesis
  proof (cases "srv (request_count st) req")
    case (Ok body)
    then show ?thesis by simp
  next
    case (Failed e)
    show ?thesis
      using ext [of rest "slept (requested st req) (2 ^ a)"]
      by (auto simp: get_attempts_Failed [where srv = srv and st = st and req = req, OF Failed]
          requested_def slept_def simp del: get_attempts.simps)
  next
    case (TooManyRequests h)
    show ?thesis
    proof (cases "retry_wait h")
      case (Inl e)
      then show ?thesis
        by (simp add: get_attempts_429 [where srv = srv and st = st and req = req,
              OF TooManyRequests] requested_def del: get_attempts.simps)
    next
      case (Inr w)
      then show ?thesis
        using ext [of rest "slept (requested st req) w"]
        by (auto simp: get_attempts_429 [where srv = srv and st = st and req = req,
              OF TooManyRequests] requested_def slept_def
            split: option.splits simp del: get_attempts.simps)
    qed
  qed
qed

lemma get_attempts_429_retry:
  assumes "srv (request_count st) req = TooManyRequests h"
    and "retry_wait h = Inr w" and "sleep_error w = None"
  shows "get_attempts srv req (a # rest) st =
           get_attempts srv req rest (slept (requested st req) w)"
    and "rest \<noteq> [] \<Longrightarrow>
         \<exists>tr. trace (snd (get_attempts srv req (a # rest) st)) =
                trace st @ [Pace, Get req, Sleep w, Pace, Get req] @ tr"
proof -
  show eq: "get_attempts srv req (a # rest) st =
           get_attempts srv req rest (slept (requested st req) w)"
    using assms(2,3)
    by (simp add: get_attempts_429 [where srv = srv and st = st and req = req, OF assms(1)]
        del: get_attempts.simps)
  assume "rest \<noteq> []"
  then obtain b bs where rest: "rest = b # bs" by (cases rest) auto
  from get_attempts_starts [of srv req b bs "slept (requested st req) w"]
  obtain tr where t: "trace (snd (get_attempts srv req (b # bs) (slept (requested st req) w))) =
      trace (slept (requested st req) w) @ [Pace, Get req] @ tr" ..
  have s: "trace (slept (requested st req) w) = trace st @ [Pace, Get req, Sleep w]"
    by (simp add: requested_def slept_def)
  have "trace (snd (get_attempts srv req (a # rest) st)) =
      trace (snd (get_attempts srv req rest (slept (requested st req) w)))"
    by (simp only: eq)
  also have "\<dots> = trace (snd (get_attempts srv req (b # bs) (slept (requested st req) w)))"
    by (simp only: rest)
  also have "\<dots> = (trace st @ [Pace, Get req, Sleep w]) @ [Pace, Get req] @ tr"
    by (simp only: t s)
  also have "\<dots> = trace st @ [Pace, Get req, Sleep w, Pace, Get req] @ tr"
    by simp
  finally show "\<exists>tr. trace (snd (get_attempts srv req (a # rest) st)) =
                trace st @ [Pace, Get req, Sleep w, Pace, Get req] @ tr" ..
qed

lemma get_sleep_overflow:
  "RobotEventsAPI_get server_far_future ''/events'' [] \<lparr>request_count = 0, trace = []\<rparr> =
     (Inl OverflowError, \<lparr>request_count = 1, trace = [Pace, Get (''/events'', [])]\<rparr>)"
  by (simp add: RobotEventsAPI_get_def MAX_RETRIES_def upt_0_3 server_far_future_def
      retry_wait_def sleep_error_def sleep_limit_def)

lemma get_first_Ok:
  assumes "srv (request_count st) (endpoint, ps) = Ok body"
  shows "RobotEventsAPI_get srv endpoint ps st =
    (Inr body, after_call st 1 (retry_trace (endpoint, ps) []))"
  using assms by (simp add: get_unfold)

lemma get_Failed_Ok:
  assumes "srv (request_count st) (endpoint, ps) = Failed e0"
    and "srv (request_count st + 1) (endpoint, ps) = Ok body"
  shows "RobotEventsAPI_get srv endpoint ps st =
    (Inr body, after_call st 2 (retry_trace (endpoint, ps) [1]))"
  using assms by (simp add: get_unfold)

lemma get_Failed_Failed_Ok:
  assumes "srv (request_count st) (endpoint, ps) = Failed e0"
    and "srv (request_count st + 1) (endpoint, ps) = Failed e1"
    and "srv (request_count st + 2) (endpoint, ps) = Ok body"
  shows "RobotEventsAPI_get srv endpoint ps st =
    (Inr body, after_call st 3 (retry_trace (endpoint, ps) [1, 2]))"
  using assms by (simp add: get_unfold)

lemma get_Failed_thrice:
  assumes "srv (request_count st) (endpoint, ps) = Failed e0"
    and "srv (request_count st + 1) (endpoint, ps) = Failed e1"
    and "srv (request_count st + 2) (endpoint, ps) = Failed e2"
  shows "RobotEventsAPI_get srv endpoint ps st =
    (Inl (RequestException e2), after_call st 3 (retry_trace (endpoint, ps) [1, 2]))"
  using assms by (simp add: get_unfold)

lemma get_429_Ok:
  assumes "srv (request_count st) (endpoint, ps) = TooManyRequests h0"
    and "retry_wait h0 = Inr w0" and "sleep_error w0 = None"
    and "srv (request_count st + 1) (endpoint, ps) = Ok body"
  shows "RobotEventsAPI_get srv endpoint ps st =
    (Inr body, after_call st 2 (retry_trace (endpoint, ps) [w0]))"
  using assms by (simp add: get_unfold)

lemma get_429_429_Ok:
  assumes "srv (request_count st) (endpoint, ps) = TooManyRequests h0"
    and "retry_wait h0 = Inr w0" and "sleep_error w0 = None"
    and "srv (request_count st + 1) (endpoint, ps) = TooManyRequests h1"
    and "retry_wait h1 = Inr w1" and "sleep_error w1 = None"
    and "srv (request_count st + 2) (endpoint, ps) = Ok body"
  shows "RobotEventsAPI_get srv endpoint ps st =
    (Inr body, after_call st 3 (retry_trace (endpoint, ps) [w0, w1]))"
  using assms by (simp add: get_unfold)

lemma get_429_thrice:
  assumes "srv (request_count st) (endpoint, ps) = TooManyRequests h0"
    and "retry_wait h0 = Inr w0" and "sleep_error w0 = None"
    and "srv (request_count st + 1) (endpoint, ps) = TooManyRequests h1"
    and "retry_wait h1 = Inr w1" and "sleep_error w1 = None"
    and "srv (request_count st + 2) (endpoint, ps) = TooManyRequests h2"
    and "retry_wait h2 = Inr w2" and "sleep_error w2 = None"
  shows "RobotEventsAPI_get srv endpoint ps st =
    (Inr empty_envelope,
     after_call st 3 (concat (map (\<lambda>w. [Pace, Get (endpoint, ps), Sleep w]) [w0, w1, w2])))"
  using assms by (simp add: get_unfold)

lemma lt_3_cases: "n < (3::nat) \<Longrightarrow> n = 0 \<or> n = 1 \<or> n = 2"
  by arith

lemma upt_0_2: "[0..<2] = [0, 1::nat]"
  by (simp add: upt_rec)

lemma upt_0_1: "[0..<1] = [0::nat]"
  by (simp add: upt_rec)

lemmas server_defs = st0_def body7_def server_flaky_def server_down_def server_busy_def
  server_busy_once_def server_busy_then_down_def events_request_def after_call_def
  retry_trace_def server_seasons_def

lemma first_page_params_eq: "first_page_params ps = page_params ps (requested_page b 0)"
  by (simp add: first_page_params_def page_params_def requested_page_def)

lemma next_page_params:
  "AList.update ''page'' (PInt (get_current (get_meta (b j)) + 1)) (page_params ps p) =
     page_params ps (requested_page b (Suc j))"
  by (simp add: page_params_def requested_page_def)

lemma requests_of_append: "requests_of (xs @ ys) = requests_of xs @ requests_of ys"
  by (simp add: requests_of_def map_filter_def)

lemma requests_of_requested:
  "requests_of (trace (requested st req)) = requests_of (trace st) @ [req]"
  by (simp add: requested_def requests_of_append) (simp add: requests_of_def map_filter_def)

lemma pages_loop_step:
  assumes "srv (request_count st) (endpoint, params) = Ok result"
  shows "pages_loop srv endpoint params acc st =
    (if stops result then Some (Inr (acc @ get_data result), requested st (endpoint, params))
     else pages_loop srv endpoint
            (AList.update ''page'' (PInt (get_current (get_meta result) + 1)) params)
            (acc @ get_data result) (requested st (endpoint, params)))"
  by (subst pages_loop.simps)
     (simp add: get_Ok [where srv = srv and st = st, OF assms] stops_def Let_def)

lemma pages_loop_run:
  assumes "j < N"
    and "\<forall>i<N. srv (rc + i) (endpoint, page_params ps (requested_page b i)) = Ok (b i)"
    and "\<forall>i<N. stops (b i) \<longleftrightarrow> i = N - 1"
    and "request_count st = rc + j"
  shows "\<exists>st'. pages_loop srv endpoint (page_params ps (requested_page b j)) acc st =
            Some (Inr (acc @ concat (map (\<lambda>i. get_data (b i)) [j..<N])), st') \<and>
          request_count st' = rc + N \<and>
          requests_of (trace st') =
            requests_of (trace st) @
            map (\<lambda>i. (endpoint, page_params ps (requested_page b i))) [j..<N]"
  using assms
proof (induction "N - j" arbitrary: j acc st)
  case 0
  then show ?case by simp
next
  case (Suc m)
  let ?req = "(endpoint, page_params ps (requested_page b j))"
  let ?st2 = "requested st ?req"
  have ok: "srv (request_count st) ?req = Ok (b j)"
    using Suc.prems(1,2,4) by simp
  note step = pages_loop_step [where srv = srv and st = st and acc = acc, OF ok]
  show ?case
  proof (cases "j = N - 1")
    case True
    then have "stops (b j)" using Suc.prems(1,3) by simp
    moreover have "[j..<N] = [j]" using True Suc.prems(1) by (simp add: upt_rec)
    moreover have "request_count ?st2 = rc + N" using True Suc.prems(1,4) by simp
    ultimately show ?thesis
      by (simp add: step requests_of_requested)
  next
    case False
    then have ns: "\<not> stops (b j)" using Suc.prems(1,3) by simp
    have j': "Suc j < N" using False Suc.prems(1) by simp
    have m: "m = N - Suc j" using Suc.hyps(2) by simp
    have c: "request_count ?st2 = rc + Suc j" using Suc.prems(4) by simp
    from Suc.hyps(1) [OF m j' Suc.prems(2,3) c, of "acc @ get_data (b j)"]
    obtain st' where
      r: "pages_loop srv endpoint (page_params ps (requested_page b (Suc j)))
            (acc @ get_data (b j)) ?st2 =
          Some (Inr ((acc @ get_data (b j)) @ concat (map (\<lambda>i. get_data (b i)) [Suc j..<N])), st')"
      and c': "request_count st' = rc + N"
      and t: "requests_of (trace st') = requests_of (trace ?st2) @
            map (\<lambda>i. (endpoint, page_params ps (requested_page b i))) [Suc j..<N]"
      by blast
    have u: "[j..<N] = j # [Suc j..<N]" using Suc.prems(1) by (simp add: upt_conv_Cons)
    have "pages_loop srv endpoint (page_params ps (requested_page b j)) acc st =
            Some (Inr (acc @ concat (map (\<lambda>i. get_data (b i)) [j..<N])), st')"
      using ns r by (simp add: step next_page_params u)
    moreover have "requests_of (trace st') =
            requests_of (trace st) @
            map (\<lambda>i. (endpoint, page_params ps (requested_page b i))) [j..<N]"
      using t by (simp add: requests_of_requested u)
    ultimately show ?thesis using c' by blast
  qed
qed

lemma get_all_pages_run:
  assumes "0 < N"
    and "\<forall>i<N. srv (request_count st + i) (endpoint, page_params ps (requested_page b i)) = Ok (b i)"
    and "\<forall>i<N. stops (b i) \<longleftrightarrow> i = N - 1"
  shows "\<exists>st'. RobotEventsAPI_get_all_pages srv endpoint ps st =
            Some (Inr (concat (map (\<lambda>i. get_data (b i)) [0..<N])), st') \<and>
          request_count st' = request_count st + N \<and>
          requests_of (trace st') =
            requests_of (trace st) @
            map (\<lambda>i. (endpoint, page_params ps (requested_page b i))) [0..<N]"
proof -
  have "request_count st = request_count st + 0" by simp
  from pages_loop_run [where j = 0 and rc = "request_count st" and acc = "[]" and st = st,
      OF assms this]
  show ?thesis
    by (simp add: RobotEventsAPI_get_all_pages_def first_page_params_eq [of ps b])
qed

lemma get_all_pages_last_page:
  assumes "0 < N"
    and "\<forall>i<N. srv (request_count st + i) (endpoint, page_params ps (int i + 1)) =
           Ok (numbered_page (d i) i N (t i))"
  shows "\<exists>st'. RobotEventsAPI_get_all_pages srv endpoint ps st =
            Some (Inr (concat (map (\<lambda>i. page_data (d i)) [0..<N])), st') \<and>
          request_count st' = request_count st + N"
proof -
  let ?b = "\<lambda>i. numbered_page (d i) i N (t i)"
  have pg: "requested_page ?b i = int i + 1" for i
    by (cases i)
       (simp_all add: requested_page_def numbered_page_def get_meta_def get_current_def)
  have resp: "\<forall>i<N. srv (request_count st + i) (endpoint, page_params ps (requested_page ?b i))
      = Ok (?b i)"
    using assms(2) by (simp only: pg)
  have stop: "\<forall>i<N. stops (?b i) \<longleftrightarrow> i = N - 1"
    by (auto simp: stops_def numbered_page_def get_meta_def get_current_def get_last_def)
  have dat: "get_data (?b i) = page_data (d i)" for i
    by (simp add: get_data_def numbered_page_def page_data_def)
  from get_all_pages_run [OF assms(1) resp stop] show ?thesis
    by (simp only: dat) blast
qed

section \<open>Properties of the filter\<close>


lemma rerank_other: "a \<notin> set as \<Longrightarrow> rerank i as h ! a = h ! a"
  by (induction as arbitrary: i h) auto

lemma rerank_nth:
  assumes "distinct as" and "\<forall>a \<in> set as. a < length h" and "k < length as"
  shows "rerank i as h ! (as ! k) = (h ! (as ! k))\<lparr>bubble_rank := Some (int (i + k) + 1)\<rparr>"
  using assms
proof (induction as arbitrary: i h k)
  case Nil
  then show ?case by simp
next
  case (Cons a as)
  let ?h = "h[a := (h ! a)\<lparr>bubble_rank := Some (int i + 1)\<rparr>]"
  show ?case
  proof (cases k)
    case 0
    have "rerank (i + 1) as ?h ! a = ?h ! a"
      using Cons.prems(1) by (intro rerank_other) simp
    with 0 Cons.prems(2) show ?thesis by simp
  next
    case (Suc k')
    have d: "distinct as" and b: "\<forall>x \<in> set as. x < length ?h" and k': "k' < length as"
      using Cons.prems Suc by simp_all
    have ne: "as ! k' \<noteq> a" using Cons.prems(1) k' by auto
    from Cons.IH [OF d b k', of "i + 1"] ne Suc show ?thesis by simp
  qed
qed


lemma rerank_upt:
  assumes "k < length h"
  shows "rerank 0 [0..<length h] h ! k = (h ! k)\<lparr>bubble_rank := Some (int k + 1)\<rparr>"
  using rerank_nth [of "[0..<length h]" h k 0] assms by simp


lemma aggregate_and_filter_unfold:
  "aggregate_and_filter runs Q =
     ([0..<length (aggregate_skills runs)],
      filter (\<lambda>t. team_id (aggregate_skills runs ! t) \<notin> Q) [0..<length (aggregate_skills runs)],
      rerank 0 (filter (\<lambda>t. team_id (aggregate_skills runs ! t) \<notin> Q)
                 [0..<length (aggregate_skills runs)]) (aggregate_skills runs))"
  by (simp add: aggregate_and_filter_def store_leaderboard_def filter_qualified_def Let_def)

lemma entries_after_empty_filter:
  "entries_of (rerank 0 [0..<length (aggregate_skills runs)] (aggregate_skills runs))
     [0..<length (aggregate_skills runs)] =
   map (\<lambda>e. e\<lparr>bubble_rank := rank e\<rparr>) (aggregate_skills runs)"
proof (rule nth_equalityI)
  show "length (entries_of (rerank 0 [0..<length (aggregate_skills runs)] (aggregate_skills runs))
     [0..<length (aggregate_skills runs)]) =
    length (map (\<lambda>e. e\<lparr>bubble_rank := rank e\<rparr>) (aggregate_skills runs))"
    by (simp add: entries_of_def)
next
  fix i
  assume "i < length (entries_of (rerank 0 [0..<length (aggregate_skills runs)]
      (aggregate_skills runs)) [0..<length (aggregate_skills runs)])"
  then have i: "i < length (aggregate_skills runs)" by (simp add: entries_of_def)
  then show "entries_of (rerank 0 [0..<length (aggregate_skills runs)] (aggregate_skills runs))
     [0..<length (aggregate_skills runs)] ! i =
    map (\<lambda>e. e\<lparr>bubble_rank := rank e\<rparr>) (aggregate_skills runs) ! i"
    by (simp add: entries_of_def rerank_upt aggregate_skills_rank)
qed


section \<open>The claims of the specification\<close>

subsection \<open>The combined score of an entry\<close>

text \<open>
  Claim C1. For every input sequence of runs with non-negative scores, every entry of the
  leaderboard returned by \<open>aggregate_skills\<close> belongs to one event \<open>ev\<close> at which its team
  has a run: its driver score is the maximum score of the driver runs of that team at
  \<open>ev\<close>, its programming score the maximum score of the programming runs of that team
  at the same \<open>ev\<close>, a component with no run counts as zero, and the combined score is the
  sum of the two. The team, the event, the kind and the score are those written in the
  runs. Without the hypothesis on the scores each component is the maximum of zero and
  the scores of its kind, which is \<open>best_score\<close>.
\<close>

theorem aggregate_skills_combined_is_sum:
  assumes "e \<in> set (aggregate_skills runs)" and "\<forall>r \<in> set runs. 0 \<le> score_of r"
  shows "\<exists>ev. (\<exists>r \<in> set runs. team_of r = team_id e \<and> event_of r = ev) \<and>
           driver e = max_score (scores_at runs (team_id e) ev ''driver'') \<and>
           programming e = max_score (scores_at runs (team_id e) ev ''programming'') \<and>
           combined e = driver e + programming e"
proof -
  have key: "run_key r = (team_of r, event_of r)" for r
    by (simp add: run_key_def run_team_id_def run_event_id_def get_info_def team_of_def
        event_of_def split: option.splits)
  have score: "run_score r = score_of r" for r
    by (simp add: run_score_def score_of_def)
  have kind: "run_type r = ty \<longleftrightarrow> skill_type r = Some ty"
    if "ty = ''driver'' \<or> ty = ''programming''" for r ty
    using that by (auto simp: run_type_def split: option.splits)
  have at: "scores_of runs k ty = scores_at runs (fst k) (snd k) ty"
    if ty: "ty = ''driver'' \<or> ty = ''programming''" for k ty
  proof -
    have "(run_key r = k \<and> run_type r = ty) =
        (team_of r = fst k \<and> event_of r = snd k \<and> skill_type r = Some ty)" for r
      using kind [OF ty, of r] by (cases k) (simp add: key)
    then show ?thesis
      by (simp add: scores_of_def scores_at_def score [abs_def])
  qed
  from aggregate_entry_origin [OF assms(1)] obtain k n where
    k: "k \<in> run_key ` set runs" and e: "e = (make_entry (group_of runs k))\<lparr>rank := Some n\<rparr>"
    by blast
  note f = fields_of_origin [OF e k]
  have nonneg: "\<forall>s \<in> set (scores_of runs k ty). 0 \<le> s" for ty
    using assms(2) scores_of_subset [of runs k ty] by (auto simp: score)
  from k obtain r where r: "r \<in> set runs" and rk: "run_key r = k" by auto
  from rk f(1) have "team_of r = team_id e \<and> event_of r = snd k"
    by (auto simp: key)
  with r have 1: "\<exists>r \<in> set runs. team_of r = team_id e \<and> event_of r = snd k" ..
  have 2: "driver e = max_score (scores_at runs (team_id e) (snd k) ''driver'')"
    using f(1,2) best_score_nonneg [OF nonneg, of "''driver''"]
    by (simp add: at)
  have 3: "programming e = max_score (scores_at runs (team_id e) (snd k) ''programming'')"
    using f(1,3) best_score_nonneg [OF nonneg, of "''programming''"]
    by (simp add: at)
  have 4: "combined e = driver e + programming e"
    using f(2,3,4) by (simp add: group_total_def)
  from 1 2 3 4 show ?thesis by blast
qed

text \<open>
  Team 100A has driver 50 and programming 40 at event 1, driver 60 and programming 20 at
  event 2: its entry is 50, 40 and 90, all from event 1, and not the 60 of event 2 with
  the 40 of event 1. Team 200B has a single programming run scoring 70: its entry has
  driver 0 and combined 70.
\<close>

theorem aggregate_skills_combined_is_sum_witness:
  "\<lparr>team_id = Some 100, team_number = ''100A'', event_name = ''E1'', driver = 50,
      programming = 40, combined = 90, rank = Some 1, bubble_rank = None\<rparr>
     \<in> set (aggregate_skills scenario_two_teams) \<and>
   \<lparr>team_id = Some 200, team_number = ''200B'', event_name = ''E1'', driver = 0,
      programming = 70, combined = 70, rank = Some 2, bubble_rank = None\<rparr>
     \<in> set (aggregate_skills scenario_two_teams) \<and>
   list_all (\<lambda>r. 0 \<le> score_of r) scenario_two_teams \<and>
   scores_at scenario_two_teams (Some 100) (Some 1) ''driver'' = [50] \<and>
   scores_at scenario_two_teams (Some 100) (Some 1) ''programming'' = [40] \<and>
   scores_at scenario_two_teams (Some 100) (Some 2) ''driver'' = [60] \<and>
   scores_at scenario_two_teams (Some 100) (Some 2) ''programming'' = [20] \<and>
   scores_at scenario_two_teams (Some 200) (Some 1) ''driver'' = [] \<and>
   scores_at scenario_two_teams (Some 200) (Some 1) ''programming'' = [70] \<and>
   (\<exists>ev. (\<exists>r \<in> set scenario_two_teams. team_of r = Some 100 \<and> event_of r = ev) \<and>
      (50::int) = max_score (scores_at scenario_two_teams (Some 100) ev ''driver'') \<and>
      (40::int) = max_score (scores_at scenario_two_teams (Some 100) ev ''programming'') \<and>
      (90::int) = 50 + 40) \<and>
   (\<exists>ev. (\<exists>r \<in> set scenario_two_teams. team_of r = Some 200 \<and> event_of r = ev) \<and>
      (0::int) = max_score (scores_at scenario_two_teams (Some 200) ev ''driver'') \<and>
      (70::int) = max_score (scores_at scenario_two_teams (Some 200) ev ''programming'') \<and>
      (70::int) = 0 + 70)"
proof -
  let ?a = "\<lparr>team_id = Some 100, team_number = ''100A'', event_name = ''E1'', driver = 50,
      programming = 40, combined = 90, rank = Some 1, bubble_rank = None\<rparr>"
  let ?b = "\<lparr>team_id = Some 200, team_number = ''200B'', event_name = ''E1'', driver = 0,
      programming = 70, combined = 70, rank = Some 2, bubble_rank = None\<rparr>"
  have a: "?a \<in> set (aggregate_skills scenario_two_teams)"
    and b: "?b \<in> set (aggregate_skills scenario_two_teams)"
    by (simp_all add: scenario_two_teams_def scenario_100A_def scenario_200B_def agg_defs)
  have p: "list_all (\<lambda>r. 0 \<le> score_of r) scenario_two_teams"
    by (simp add: at_defs)
  then have p': "\<forall>r \<in> set scenario_two_teams. 0 \<le> score_of r"
    by (simp only: list_all_iff)
  have s: "scores_at scenario_two_teams (Some 100) (Some 1) ''driver'' = [50]"
    "scores_at scenario_two_teams (Some 100) (Some 1) ''programming'' = [40]"
    "scores_at scenario_two_teams (Some 100) (Some 2) ''driver'' = [60]"
    "scores_at scenario_two_teams (Some 100) (Some 2) ''programming'' = [20]"
    "scores_at scenario_two_teams (Some 200) (Some 1) ''driver'' = []"
    "scores_at scenario_two_teams (Some 200) (Some 1) ''programming'' = [70]"
    by (simp_all add: at_defs)
  from aggregate_skills_combined_is_sum [OF a p'] have ea: "\<exists>ev. (\<exists>r \<in> set scenario_two_teams. team_of r = Some 100 \<and> event_of r = ev) \<and>
      (50::int) = max_score (scores_at scenario_two_teams (Some 100) ev ''driver'') \<and>
      (40::int) = max_score (scores_at scenario_two_teams (Some 100) ev ''programming'') \<and>
      (90::int) = 50 + 40"
    by simp
  from aggregate_skills_combined_is_sum [OF b p'] have eb: "\<exists>ev. (\<exists>r \<in> set scenario_two_teams. team_of r = Some 200 \<and> event_of r = ev) \<and>
      (0::int) = max_score (scores_at scenario_two_teams (Some 200) ev ''driver'') \<and>
      (70::int) = max_score (scores_at scenario_two_teams (Some 200) ev ''programming'') \<and>
      (70::int) = 0 + 70"
    by simp
  from a b p s ea eb show ?thesis by (simp only: simp_thms)
qed

subsection \<open>The group chosen for a team\<close>

text \<open>
  Claim C2. Every team with a run has exactly one entry, and the entry of a team comes
  from one of its (team, event) groups \<open>k\<close>: the scores and the event name are those of
  \<open>k\<close>, every other group of the team has a combined score that is strictly smaller, or
  equal with \<open>k\<close> met first in the input (\<open>first_pos\<close> is the index of the first run of
  a group). So the chosen group has the highest combined score and, among the groups
  that reach it, is the one first encountered.
\<close>

theorem aggregate_skills_selects_best_group:
  "(\<forall>t \<in> run_team_id ` set runs. \<exists>!e. e \<in> set (aggregate_skills runs) \<and> team_id e = t) \<and>
   (\<forall>e \<in> set (aggregate_skills runs). \<exists>k \<in> run_key ` set runs.
      fst k = team_id e \<and> combined e = group_total runs k \<and>
      driver e = best_score runs k ''driver'' \<and>
      programming e = best_score runs k ''programming'' \<and>
      event_name e = te_event_name (new_group (first_run runs k)) \<and>
      (\<forall>k' \<in> run_key ` set runs. fst k' = team_id e \<and> k' \<noteq> k \<longrightarrow>
         group_total runs k' < group_total runs k \<or>
         (group_total runs k' = group_total runs k \<and>
          first_pos k runs < first_pos k' runs)))"
proof (intro conjI ballI)
  fix t
  assume "t \<in> run_team_id ` set runs"
  from aggregate_team_exists [OF this] obtain k n where
    k: "k \<in> run_key ` set runs" and t: "fst k = t" and
    mem: "(make_entry (group_of runs k))\<lparr>rank := Some n\<rparr> \<in> set (aggregate_skills runs)"
    by blast
  let ?e = "(make_entry (group_of runs k))\<lparr>rank := Some n\<rparr>"
  have "team_id ?e = t" using fields_of_origin(1) [OF refl k, of n] t by simp
  with mem have "?e \<in> set (aggregate_skills runs) \<and> team_id ?e = t" ..
  then show "\<exists>!e. e \<in> set (aggregate_skills runs) \<and> team_id e = t"
  proof (rule ex1I)
    fix e'
    assume "e' \<in> set (aggregate_skills runs) \<and> team_id e' = t"
    with mem \<open>team_id ?e = t\<close> show "e' = ?e"
      by (intro aggregate_skills_unique [of e' runs ?e]) simp_all
  qed
next
  fix e
  assume "e \<in> set (aggregate_skills runs)"
  from aggregate_entry_origin [OF this] obtain k n where
    k: "k \<in> run_key ` set runs" and e: "e = (make_entry (group_of runs k))\<lparr>rank := Some n\<rparr>"
    and best: "\<forall>k' \<in> run_key ` set runs. fst k' = fst k \<and> k' \<noteq> k \<longrightarrow>
       group_combined (group_of runs k') < group_combined (group_of runs k) \<or>
       (group_combined (group_of runs k') = group_combined (group_of runs k) \<and>
        first_pos k runs < first_pos k' runs)"
    by blast
  note f = fields_of_origin [OF e k]
  from best have "\<forall>k' \<in> run_key ` set runs. fst k' = team_id e \<and> k' \<noteq> k \<longrightarrow>
              group_total runs k' < group_total runs k \<or>
              (group_total runs k' = group_total runs k \<and>
               first_pos k runs < first_pos k' runs)"
    by (simp only: group_combined_group_of f(1))
  with f have "fst k = team_id e \<and> combined e = group_total runs k \<and>
           driver e = best_score runs k ''driver'' \<and>
           programming e = best_score runs k ''programming'' \<and>
           event_name e = te_event_name (new_group (first_run runs k)) \<and>
           (\<forall>k' \<in> run_key ` set runs. fst k' = team_id e \<and> k' \<noteq> k \<longrightarrow>
              group_total runs k' < group_total runs k \<or>
              (group_total runs k' = group_total runs k \<and>
               first_pos k runs < first_pos k' runs))"
    by simp
  with k show "\<exists>k \<in> run_key ` set runs.
      fst k = team_id e \<and> combined e = group_total runs k \<and>
      driver e = best_score runs k ''driver'' \<and>
      programming e = best_score runs k ''programming'' \<and>
      event_name e = te_event_name (new_group (first_run runs k)) \<and>
      (\<forall>k' \<in> run_key ` set runs. fst k' = team_id e \<and> k' \<noteq> k \<longrightarrow>
         group_total runs k' < group_total runs k \<or>
         (group_total runs k' = group_total runs k \<and>
          first_pos k runs < first_pos k' runs))" by (rule rev_bexI)
qed

text \<open>
  The scenario of the specification: team 100A has driver 50 and programming 40 at E1,
  driver 60 and programming 20 at E2; its entry comes from E1 with combined 90.
\<close>

theorem aggregate_skills_selects_best_group_witness:
  "Some 100 \<in> run_team_id ` set scenario_100A \<and>
   aggregate_skills scenario_100A =
     [\<lparr>team_id = Some 100, team_number = ''100A'', event_name = ''E1'', driver = 50,
       programming = 40, combined = 90, rank = Some 1, bubble_rank = None\<rparr>] \<and>
   run_key ` set scenario_100A = {(Some 100, Some 1), (Some 100, Some 2)} \<and>
   group_total scenario_100A (Some 100, Some 1) = 90 \<and>
   group_total scenario_100A (Some 100, Some 2) = 80 \<and>
   (\<exists>!e. e \<in> set (aggregate_skills scenario_100A) \<and> team_id e = Some 100) \<and>
   (\<exists>k \<in> run_key ` set scenario_100A.
      fst k = Some 100 \<and> group_total scenario_100A k = 90 \<and>
      te_event_name (new_group (first_run scenario_100A k)) = ''E1'' \<and>
      (\<forall>k' \<in> run_key ` set scenario_100A. fst k' = Some 100 \<and> k' \<noteq> k \<longrightarrow>
         group_total scenario_100A k' < group_total scenario_100A k \<or>
         (group_total scenario_100A k' = group_total scenario_100A k \<and>
          first_pos k scenario_100A < first_pos k' scenario_100A)))"
proof -
  let ?e = "\<lparr>team_id = Some 100, team_number = ''100A'', event_name = ''E1'', driver = 50,
       programming = 40, combined = 90, rank = Some 1, bubble_rank = None\<rparr>"
  have t: "Some 100 \<in> run_team_id ` set scenario_100A"
    by (simp add: scenario_100A_def mk_run_def run_team_id_def get_info_def)
  have lb: "aggregate_skills scenario_100A = [?e]"
    by (simp add: scenario_100A_def agg_defs)
  have keys: "run_key ` set scenario_100A = {(Some 100, Some 1), (Some 100, Some 2)}"
    by (auto simp: scenario_100A_def mk_run_def run_key_def run_team_id_def run_event_id_def
        get_info_def)
  have g1: "group_total scenario_100A (Some 100, Some 1) = 90"
    by (simp add: scenario_100A_def spec_defs mk_run_def run_key_def run_team_id_def
        run_event_id_def get_info_def run_type_def run_score_def)
  have g2: "group_total scenario_100A (Some 100, Some 2) = 80"
    by (simp add: scenario_100A_def spec_defs mk_run_def run_key_def run_team_id_def
        run_event_id_def get_info_def run_type_def run_score_def)
  have mem: "?e \<in> set (aggregate_skills scenario_100A)" by (simp add: lb)
  note inst = aggregate_skills_selects_best_group [of scenario_100A]
  from inst t have u: "\<exists>!e. e \<in> set (aggregate_skills scenario_100A) \<and> team_id e = Some 100"
    by blast
  from inst mem obtain k where k: "k \<in> run_key ` set scenario_100A" and
    c: "fst k = team_id ?e \<and> combined ?e = group_total scenario_100A k \<and>
      driver ?e = best_score scenario_100A k ''driver'' \<and>
      programming ?e = best_score scenario_100A k ''programming'' \<and>
      event_name ?e = te_event_name (new_group (first_run scenario_100A k)) \<and>
      (\<forall>k' \<in> run_key ` set scenario_100A. fst k' = team_id ?e \<and> k' \<noteq> k \<longrightarrow>
         group_total scenario_100A k' < group_total scenario_100A k \<or>
         (group_total scenario_100A k' = group_total scenario_100A k \<and>
          first_pos k scenario_100A < first_pos k' scenario_100A))"
    by blast
  from c have "fst k = Some 100 \<and> group_total scenario_100A k = 90 \<and>
      te_event_name (new_group (first_run scenario_100A k)) = ''E1'' \<and>
      (\<forall>k' \<in> run_key ` set scenario_100A. fst k' = Some 100 \<and> k' \<noteq> k \<longrightarrow>
         group_total scenario_100A k' < group_total scenario_100A k \<or>
         (group_total scenario_100A k' = group_total scenario_100A k \<and>
          first_pos k scenario_100A < first_pos k' scenario_100A))"
    unfolding entry.simps by auto
  with k have "\<exists>k \<in> run_key ` set scenario_100A.
      fst k = Some 100 \<and> group_total scenario_100A k = 90 \<and>
      te_event_name (new_group (first_run scenario_100A k)) = ''E1'' \<and>
      (\<forall>k' \<in> run_key ` set scenario_100A. fst k' = Some 100 \<and> k' \<noteq> k \<longrightarrow>
         group_total scenario_100A k' < group_total scenario_100A k \<or>
         (group_total scenario_100A k' = group_total scenario_100A k \<and>
          first_pos k scenario_100A < first_pos k' scenario_100A))"
    by (rule rev_bexI)
  with t lb keys g1 g2 u show ?thesis by (simp only: simp_thms)
qed

subsection \<open>Order and ranks of the leaderboard\<close>

text \<open>
  Claim C3. The leaderboard is ordered by combined score descending and, among equal
  combined scores, by programming score descending; entries that agree on both keys
  stand in the order they had before the sort (for every pair of keys, the entries
  with these keys are the same list before and after); and the entry at index \<open>i\<close>
  has rank \<open>i + 1\<close>, so the ranks are 1, 2, 3, ... without gaps in the sorted order.
\<close>

theorem aggregate_skills_order_and_ranks:
  "sorted_wrt ranks_before (aggregate_skills runs) \<and>
   (\<forall>c p. filter (same_keys c p) (map unranked (aggregate_skills runs)) =
          filter (same_keys c p) (before_sort runs)) \<and>
   (\<forall>i < length (aggregate_skills runs). rank (aggregate_skills runs ! i) = Some (int i + 1))"
  using aggregate_skills_sorted aggregate_skills_stable aggregate_skills_rank by blast

text \<open>
  Four teams, three of them with combined score 50: team 2 goes first among them on its
  programming score, teams 1 and 3 keep their input order, and the ranks are 1 to 4.
\<close>

theorem aggregate_skills_order_and_ranks_witness:
  "sorted_wrt ranks_before (aggregate_skills scenario_ties) \<and>
   map team_id (aggregate_skills scenario_ties) = [Some 4, Some 2, Some 1, Some 3] \<and>
   map team_id (filter (same_keys 50 0) (map unranked (aggregate_skills scenario_ties))) =
     [Some 1, Some 3] \<and>
   map team_id (filter (same_keys 50 0) (before_sort scenario_ties)) = [Some 1, Some 3] \<and>
   3 < length (aggregate_skills scenario_ties) \<and>
   rank (aggregate_skills scenario_ties ! 3) = Some 4"
proof -
  note inst = aggregate_skills_order_and_ranks [of scenario_ties]
  have len: "3 < length (aggregate_skills scenario_ties)" by (simp add: ties_value)
  from inst have s: "sorted_wrt ranks_before (aggregate_skills scenario_ties)" by blast
  from inst have "filter (same_keys 50 0) (map unranked (aggregate_skills scenario_ties)) =
      filter (same_keys 50 0) (before_sort scenario_ties)" by blast
  then have f: "map team_id (filter (same_keys 50 0) (map unranked (aggregate_skills scenario_ties)))
      = [Some 1, Some 3]" by (simp add: ties_before)
  from inst len have r: "rank (aggregate_skills scenario_ties ! 3) = Some (int 3 + 1)" by blast
  have m: "map team_id (aggregate_skills scenario_ties) = [Some 4, Some 2, Some 1, Some 3]"
    by (simp add: ties_value)
  from s m f len r show ?thesis by (simp add: ties_before)
qed

subsection \<open>Rate limiting\<close>

text \<open>
  Claim C4 says that a 429 response is followed by a wait and a retry of the same
  request, that such retries may repeat without bound, and that they are not counted
  against the three attempts. In \<open>_get\<close> the 429 branch ends in \<open>continue\<close> inside
  \<open>for attempt in range(MAX_RETRIES)\<close>, so every 429 response uses up one attempt.
  Against a server that always answers 429 the call makes three requests, waits after
  the third without retrying, and returns the empty object; after one 429 only two
  transient failures are needed for the exception to be raised.
\<close>

theorem get_rate_limit_counterexample:
  "RobotEventsAPI_get server_busy ''/events'' [] st0 =
     (Inr empty_envelope,
      \<lparr>request_count = 3,
       trace = [Pace, Get events_request, Sleep 5, Pace, Get events_request, Sleep 5,
                Pace, Get events_request, Sleep 5]\<rparr>) \<and>
   RobotEventsAPI_get server_busy_then_down ''/events'' [] st0 =
     (Inl (RequestException ''timeout''),
      \<lparr>request_count = 3,
       trace = [Pace, Get events_request, Sleep 5, Pace, Get events_request, Sleep 2,
                Pace, Get events_request]\<rparr>)"
  by (simp add: server_defs RobotEventsAPI_get_def MAX_RETRIES_def upt_0_3 retry_wait_def
      sleep_error_def sleep_limit_def)

text \<open>
  Claim C4 as amended. On a 429 response the client waits the number of seconds given by
  the Retry-After header, 30 when the header is absent (a duration that \<open>time.sleep\<close>
  accepts, from 0 to 9223372036 seconds), and goes on with the attempts that are left:
  while fewer than three requests have been made in the call it retries the same
  request, whatever the responses before and after. The rate-limited responses use
  the same three attempts as the transient failures, so a call never makes more than
  three requests. In particular up to two 429 responses followed by a success return
  the body after these waits.
\<close>

theorem get_rate_limit_uses_attempts:
  "(srv (request_count st) req = TooManyRequests h0 \<and> retry_wait h0 = Inr w0 \<and>
    0 \<le> w0 \<and> w0 \<le> sleep_limit \<longrightarrow>
      get_attempts srv req (a # rest) st =
        get_attempts srv req rest (slept (requested st req) w0) \<and>
      (rest \<noteq> [] \<longrightarrow>
         (\<exists>tr. trace (snd (get_attempts srv req (a # rest) st)) =
                trace st @ [Pace, Get req, Sleep w0, Pace, Get req] @ tr))) \<and>
   RobotEventsAPI_get srv endpoint ps st = get_attempts srv (endpoint, ps) [0, 1, 2] st \<and>
   (n < 3 \<and>
    (\<forall>i<n. srv (request_count st + i) (endpoint, ps) = TooManyRequests (h i) \<and>
           retry_wait (h i) = Inr (w i) \<and> 0 \<le> w i \<and> w i \<le> sleep_limit) \<and>
    srv (request_count st + n) (endpoint, ps) = Ok body \<longrightarrow>
      RobotEventsAPI_get srv endpoint ps st =
        (Inr body, after_call st (n + 1) (retry_trace (endpoint, ps) (map w [0..<n])))) \<and>
   retry_wait NoHeader = Inr 30 \<and> retry_wait (HeaderSeconds s) = Inr s \<and>
   request_count (snd (RobotEventsAPI_get srv endpoint ps st)) \<le> request_count st + 3"
proof (intro conjI impI)
  assume a: "srv (request_count st) req = TooManyRequests h0 \<and> retry_wait h0 = Inr w0 \<and>
    0 \<le> w0 \<and> w0 \<le> sleep_limit"
  then have 1: "srv (request_count st) req = TooManyRequests h0"
    and 2: "retry_wait h0 = Inr w0" and 3: "sleep_error w0 = None"
    by (simp_all add: sleep_error_None)
  show "get_attempts srv req (a # rest) st =
        get_attempts srv req rest (slept (requested st req) w0)"
    by (rule get_attempts_429_retry(1) [where srv = srv and st = st, OF 1 2 3])
  assume "rest \<noteq> []"
  then show "\<exists>tr. trace (snd (get_attempts srv req (a # rest) st)) =
                trace st @ [Pace, Get req, Sleep w0, Pace, Get req] @ tr"
    by (rule get_attempts_429_retry(2) [where srv = srv and st = st, OF 1 2 3])
next
  show "RobotEventsAPI_get srv endpoint ps st = get_attempts srv (endpoint, ps) [0, 1, 2] st"
    by (simp only: RobotEventsAPI_get_def attempts_3)
next
  assume a: "n < 3 \<and>
    (\<forall>i<n. srv (request_count st + i) (endpoint, ps) = TooManyRequests (h i) \<and>
           retry_wait (h i) = Inr (w i) \<and> 0 \<le> w i \<and> w i \<le> sleep_limit) \<and>
    srv (request_count st + n) (endpoint, ps) = Ok body"
  then have all: "\<forall>i<n. srv (request_count st + i) (endpoint, ps) = TooManyRequests (h i) \<and>
           retry_wait (h i) = Inr (w i) \<and> sleep_error (w i) = None"
    and ok: "srv (request_count st + n) (endpoint, ps) = Ok body"
    by (simp_all add: sleep_error_None)
  from a consider "n = 0" | "n = 1" | "n = 2" using lt_3_cases by blast
  then show "RobotEventsAPI_get srv endpoint ps st =
        (Inr body, after_call st (n + 1) (retry_trace (endpoint, ps) (map w [0..<n])))"
  proof cases
    case 1
    with ok show ?thesis using get_first_Ok [of srv st endpoint ps body] by simp
  next
    case 2
    have "srv (request_count st) (endpoint, ps) = TooManyRequests (h 0)"
      and "retry_wait (h 0) = Inr (w 0)" and "sleep_error (w 0) = None"
      and "srv (request_count st + 1) (endpoint, ps) = Ok body"
      using all [rule_format, of 0] ok 2 by simp_all
    from get_429_Ok [where srv = srv and st = st, OF this] 2 show ?thesis
      by (simp add: upt_0_1 numeral_2_eq_2)
  next
    case 3
    have "srv (request_count st) (endpoint, ps) = TooManyRequests (h 0)"
      and "retry_wait (h 0) = Inr (w 0)" and "sleep_error (w 0) = None"
      and "srv (request_count st + 1) (endpoint, ps) = TooManyRequests (h 1)"
      and "retry_wait (h 1) = Inr (w 1)" and "sleep_error (w 1) = None"
      and "srv (request_count st + 2) (endpoint, ps) = Ok body"
      using all [rule_format, of 0] all [rule_format, of 1] ok 3 by simp_all
    from get_429_429_Ok [where srv = srv and st = st, OF this] 3 show ?thesis
      by (simp add: upt_0_2 numeral_3_eq_3)
  qed
next
  show "retry_wait NoHeader = Inr 30" by (simp add: retry_wait_def)
next
  show "retry_wait (HeaderSeconds s) = Inr s" by (simp add: retry_wait_def)
next
  show "request_count (snd (RobotEventsAPI_get srv endpoint ps st)) \<le> request_count st + 3"
    by (rule get_count_le)
qed

text \<open>
  One 429 response without a Retry-After header, then a success; and a 429 response
  followed by timeouts, where the same request is sent again after the wait of 5
  seconds.
\<close>

theorem get_rate_limit_uses_attempts_witness:
  "RobotEventsAPI_get server_busy_once ''/events'' [] st0 =
     (Inr body7,
      \<lparr>request_count = 2,
       trace = [Pace, Get events_request, Sleep 30, Pace, Get events_request]\<rparr>) \<and>
   (\<exists>tr. trace (snd (RobotEventsAPI_get server_busy_then_down ''/events'' [] st0)) =
      [Pace, Get events_request, Sleep 5, Pace, Get events_request] @ tr)"
proof -
  note inst = get_rate_limit_uses_attempts [of server_busy_once st0 events_request NoHeader 30
      0 "[1, 2]" "''/events''" "[]" 1 "\<lambda>_. NoHeader" "\<lambda>_. 30" body7]
  have "1 < (3::nat) \<and>
    (\<forall>i<1. server_busy_once (request_count st0 + i) (''/events'', []) = TooManyRequests NoHeader \<and>
           retry_wait NoHeader = Inr 30 \<and> (0::int) \<le> 30 \<and> 30 \<le> sleep_limit) \<and>
    server_busy_once (request_count st0 + 1) (''/events'', []) = Ok body7"
    by (simp add: server_busy_once_def st0_def retry_wait_def sleep_limit_def)
  with inst
  have "RobotEventsAPI_get server_busy_once ''/events'' [] st0 =
        (Inr body7, after_call st0 (1 + 1) (retry_trace (''/events'', []) (map (\<lambda>_. 30) [0..<1])))"
    by blast
  then have 1: "RobotEventsAPI_get server_busy_once ''/events'' [] st0 =
     (Inr body7,
      \<lparr>request_count = 2,
       trace = [Pace, Get events_request, Sleep 30, Pace, Get events_request]\<rparr>)"
    by (simp add: upt_0_1 st0_def events_request_def after_call_def retry_trace_def)
  note inst2 = get_rate_limit_uses_attempts [of server_busy_then_down st0 events_request
      "HeaderSeconds 5" 5 0 "[1, 2]" "''/events''" "[]" 0 "\<lambda>_. NoHeader" "\<lambda>_. 30" body7 5]
  have h: "server_busy_then_down (request_count st0) events_request =
      TooManyRequests (HeaderSeconds 5) \<and> retry_wait (HeaderSeconds 5) = Inr 5 \<and>
      (0::int) \<le> 5 \<and> 5 \<le> sleep_limit"
    by (simp add: server_busy_then_down_def st0_def retry_wait_def sleep_limit_def)
  have ne: "[1, 2::nat] \<noteq> []" by simp
  from inst2 h ne
  have "\<exists>tr. trace (snd (get_attempts server_busy_then_down events_request (0 # [1, 2]) st0)) =
        trace st0 @ [Pace, Get events_request, Sleep 5, Pace, Get events_request] @ tr"
    by blast
  moreover from inst2
  have "RobotEventsAPI_get server_busy_then_down ''/events'' [] st0 =
      get_attempts server_busy_then_down (''/events'', []) [0, 1, 2] st0"
    by blast
  ultimately have 2: "\<exists>tr. trace (snd (RobotEventsAPI_get server_busy_then_down ''/events'' [] st0)) =
      [Pace, Get events_request, Sleep 5, Pace, Get events_request] @ tr"
    by (simp add: events_request_def st0_def)
  from 1 2 show ?thesis ..
qed

subsection \<open>Transient failures\<close>

text \<open>
  Claim C5. When the first \<open>n\<close> requests of a call raise a request exception and the
  next one succeeds (\<open>n < 3\<close>), the client has retried the same request after sleeping
  1 and then 2 seconds (\<open>2 ^ attempt\<close>) and returns the body; when the first three
  requests fail, the exception of the third is raised to the caller after exactly
  three requests; and no call makes more than three requests.
\<close>

theorem get_retries_transient_failures:
  "(n < 3 \<and> (\<forall>i<n. srv (request_count st + i) (endpoint, ps) = Failed (e i)) \<and>
    srv (request_count st + n) (endpoint, ps) = Ok body \<longrightarrow>
      RobotEventsAPI_get srv endpoint ps st =
        (Inr body, after_call st (n + 1) (retry_trace (endpoint, ps) (map (\<lambda>i. 2 ^ i) [0..<n])))) \<and>
   ((\<forall>i<3. srv (request_count st + i) (endpoint, ps) = Failed (e i)) \<longrightarrow>
      RobotEventsAPI_get srv endpoint ps st =
        (Inl (RequestException (e 2)), after_call st 3 (retry_trace (endpoint, ps) [1, 2]))) \<and>
   request_count (snd (RobotEventsAPI_get srv endpoint ps st)) \<le> request_count st + 3"
proof (intro conjI impI)
  assume a: "n < 3 \<and> (\<forall>i<n. srv (request_count st + i) (endpoint, ps) = Failed (e i)) \<and>
    srv (request_count st + n) (endpoint, ps) = Ok body"
  then consider "n = 0" | "n = 1" | "n = 2" using lt_3_cases by blast
  then show "RobotEventsAPI_get srv endpoint ps st =
        (Inr body, after_call st (n + 1) (retry_trace (endpoint, ps) (map (\<lambda>i. 2 ^ i) [0..<n])))"
  proof cases
    case 1
    with a show ?thesis using get_first_Ok [of srv st endpoint ps body] by simp
  next
    case 2
    with a have "srv (request_count st) (endpoint, ps) = Failed (e 0)"
      and "srv (request_count st + 1) (endpoint, ps) = Ok body" by simp_all
    from get_Failed_Ok [where srv = srv and st = st, OF this] 2 show ?thesis by (simp add: upt_0_1 numeral_2_eq_2)
  next
    case 3
    from a have all: "\<forall>i<n. srv (request_count st + i) (endpoint, ps) = Failed (e i)"
      and ok: "srv (request_count st + n) (endpoint, ps) = Ok body" by simp_all
    have "srv (request_count st) (endpoint, ps) = Failed (e 0)"
      and "srv (request_count st + 1) (endpoint, ps) = Failed (e 1)"
      and "srv (request_count st + 2) (endpoint, ps) = Ok body"
      using all [rule_format, of 0] all [rule_format, of 1] ok 3 by simp_all
    from get_Failed_Failed_Ok [where srv = srv and st = st, OF this] 3 show ?thesis by (simp add: upt_0_2 numeral_3_eq_3)
  qed
next
  assume a: "\<forall>i<3. srv (request_count st + i) (endpoint, ps) = Failed (e i)"
  have "srv (request_count st) (endpoint, ps) = Failed (e 0)"
    and "srv (request_count st + 1) (endpoint, ps) = Failed (e 1)"
    and "srv (request_count st + 2) (endpoint, ps) = Failed (e 2)"
    using a [rule_format, of 0] a [rule_format, of 1] a [rule_format, of 2] by simp_all
  from get_Failed_thrice [where srv = srv and st = st, OF this] show "RobotEventsAPI_get srv endpoint ps st =
        (Inl (RequestException (e 2)), after_call st 3 (retry_trace (endpoint, ps) [1, 2]))" .
next
  show "request_count (snd (RobotEventsAPI_get srv endpoint ps st)) \<le> request_count st + 3"
    by (rule get_count_le)
qed

text \<open>Two timeouts and a success; three timeouts.\<close>

theorem get_retries_transient_failures_witness:
  "RobotEventsAPI_get server_flaky ''/events'' [] st0 =
     (Inr body7,
      \<lparr>request_count = 3,
       trace = [Pace, Get events_request, Sleep 1, Pace, Get events_request, Sleep 2,
                Pace, Get events_request]\<rparr>) \<and>
   RobotEventsAPI_get server_down ''/events'' [] st0 =
     (Inl (RequestException ''timeout''),
      \<lparr>request_count = 3,
       trace = [Pace, Get events_request, Sleep 1, Pace, Get events_request, Sleep 2,
                Pace, Get events_request]\<rparr>)"
proof -
  have "2 < (3::nat) \<and>
      (\<forall>i<2. server_flaky (request_count st0 + i) (''/events'', []) = Failed ''timeout'') \<and>
      server_flaky (request_count st0 + 2) (''/events'', []) = Ok body7"
    by (simp add: server_flaky_def st0_def)
  with get_retries_transient_failures [of 2 server_flaky st0 "''/events''" "[]" "\<lambda>_. ''timeout''" body7]
  have "RobotEventsAPI_get server_flaky ''/events'' [] st0 =
      (Inr body7, after_call st0 (2 + 1) (retry_trace (''/events'', []) (map (\<lambda>i. 2 ^ i) [0..<2])))"
    by blast
  then have 1: "RobotEventsAPI_get server_flaky ''/events'' [] st0 =
     (Inr body7,
      \<lparr>request_count = 3,
       trace = [Pace, Get events_request, Sleep 1, Pace, Get events_request, Sleep 2,
                Pace, Get events_request]\<rparr>)"
    by (simp add: upt_0_2 st0_def events_request_def after_call_def retry_trace_def)
  have "\<forall>i<3. server_down (request_count st0 + i) (''/events'', []) = Failed ''timeout''"
    by (simp add: server_down_def st0_def)
  with get_retries_transient_failures [of 0 server_down st0 "''/events''" "[]" "\<lambda>_. ''timeout''" body7]
  have "RobotEventsAPI_get server_down ''/events'' [] st0 =
      (Inl (RequestException ''timeout''), after_call st0 3 (retry_trace (''/events'', []) [1, 2]))"
    by blast
  then have 2: "RobotEventsAPI_get server_down ''/events'' [] st0 =
     (Inl (RequestException ''timeout''),
      \<lparr>request_count = 3,
       trace = [Pace, Get events_request, Sleep 1, Pace, Get events_request, Sleep 2,
                Pace, Get events_request]\<rparr>)"
    by (simp add: st0_def events_request_def after_call_def retry_trace_def)
  from 1 2 show ?thesis ..
qed

subsection \<open>Pagination\<close>

text \<open>
  Claim C6. Let the requests of \<open>_get_all_pages\<close> be answered by the bodies \<open>b 0\<close>, ...,
  \<open>b (N - 1)\<close>, where the first request asks for page 1 and each later one for the
  \<open>current_page\<close> of the body before plus one, and let \<open>b (N - 1)\<close> be the first body
  with \<open>current_page \<ge> last_page\<close>. Then the call returns, after exactly these \<open>N\<close>
  requests, the concatenation of the \<open>N\<close> payloads in order, a body without \<open>data\<close>
  counting as an empty page. In particular, when the body of page \<open>i + 1\<close> reports
  \<open>current_page = i + 1\<close> and \<open>last_page = N\<close>, the result is the concatenation of the
  \<open>N\<close> payloads whatever the bodies say in \<open>total\<close>.
\<close>

theorem get_all_pages_pagination:
  "(0 < N \<and>
    (\<forall>i<N. srv (request_count st + i) (endpoint, page_params ps (requested_page b i)) =
            Ok (b i)) \<and>
    (\<forall>i<N. get_current (get_meta (b i)) \<ge> get_last (get_meta (b i)) \<longleftrightarrow> i = N - 1) \<longrightarrow>
    (\<exists>st'. RobotEventsAPI_get_all_pages srv endpoint ps st =
            Some (Inr (concat (map (\<lambda>i. get_data (b i)) [0..<N])), st') \<and>
          request_count st' = request_count st + N \<and>
          requests_of (trace st') =
            requests_of (trace st) @
            map (\<lambda>i. (endpoint, page_params ps (requested_page b i))) [0..<N])) \<and>
   (0 < N \<and>
    (\<forall>i<N. srv (request_count st + i) (endpoint, page_params ps (int i + 1)) =
            Ok (numbered_page (d i) i N (t i))) \<longrightarrow>
    (\<exists>st'. RobotEventsAPI_get_all_pages srv endpoint ps st =
            Some (Inr (concat (map (\<lambda>i. page_data (d i)) [0..<N])), st') \<and>
          request_count st' = request_count st + N))"
proof (intro conjI impI)
  assume a: "0 < N \<and>
    (\<forall>i<N. srv (request_count st + i) (endpoint, page_params ps (requested_page b i)) =
            Ok (b i)) \<and>
    (\<forall>i<N. get_current (get_meta (b i)) \<ge> get_last (get_meta (b i)) \<longleftrightarrow> i = N - 1)"
  then have 1: "0 < N"
    and 2: "\<forall>i<N. srv (request_count st + i) (endpoint, page_params ps (requested_page b i)) =
            Ok (b i)"
    and 3: "\<forall>i<N. stops (b i) \<longleftrightarrow> i = N - 1"
    by (simp_all add: stops_def)
  from get_all_pages_run [OF 1 2 3]
  show "\<exists>st'. RobotEventsAPI_get_all_pages srv endpoint ps st =
            Some (Inr (concat (map (\<lambda>i. get_data (b i)) [0..<N])), st') \<and>
          request_count st' = request_count st + N \<and>
          requests_of (trace st') =
            requests_of (trace st) @
            map (\<lambda>i. (endpoint, page_params ps (requested_page b i))) [0..<N]" .
next
  assume a: "0 < N \<and>
    (\<forall>i<N. srv (request_count st + i) (endpoint, page_params ps (int i + 1)) =
            Ok (numbered_page (d i) i N (t i)))"
  then have 1: "0 < N"
    and 2: "\<forall>i<N. srv (request_count st + i) (endpoint, page_params ps (int i + 1)) =
            Ok (numbered_page (d i) i N (t i))"
    by simp_all
  from get_all_pages_last_page [OF 1 2]
  show "\<exists>st'. RobotEventsAPI_get_all_pages srv endpoint ps st =
            Some (Inr (concat (map (\<lambda>i. page_data (d i)) [0..<N])), st') \<and>
          request_count st' = request_count st + N" .
qed

text \<open>Three pages, the second without \<open>data\<close>, a wrong \<open>total\<close>.\<close>

theorem get_all_pages_pagination_witness:
  "\<exists>st'. RobotEventsAPI_get_all_pages server_pages ''/events'' [] st0 =
           Some (Inr [1, 2, 3], st') \<and> request_count st' = 3"
proof -
  have h: "(0::nat) < 3 \<and>
    (\<forall>i<3. server_pages (request_count st0 + i) (''/events'', page_params [] (int i + 1)) =
            Ok (numbered_page (pages_data i) i 3 (Some 999)))"
    by (auto simp: server_pages_def page_params_def numbered_page_def pages_data_def)
  from get_all_pages_pagination [of 3 server_pages st0 "''/events''" "[]" "\<lambda>_. empty_envelope" pages_data
      "\<lambda>_. Some 999"] h
  have "\<exists>st'. RobotEventsAPI_get_all_pages server_pages ''/events'' [] st0 =
            Some (Inr (concat (map (\<lambda>i. page_data (pages_data i)) [0..<3])), st') \<and>
          request_count st' = request_count st0 + 3"
    by blast
  then show ?thesis
    by (simp add: upt_0_3 page_data_def pages_data_def st0_def)
qed

subsection \<open>The active season\<close>

text \<open>
  Claim C8. When the query for the active seasons of the program is answered, the
  result of \<open>get_active_season\<close> is the error "No active V5RC season found!" if the
  answer holds no season, and the last season of the answer otherwise.
\<close>

theorem get_active_season_result:
  assumes "srv (request_count st) (''/seasons'', seasons_params) = Ok result"
  shows "fst (get_active_season srv st) =
    (case data result of
       None \<Rightarrow> Inl no_season_error
     | Some seasons \<Rightarrow> if seasons = [] then Inl no_season_error else Inr (last seasons))"
  using get_Ok [where srv = srv and st = st, OF assms]
  by (simp add: get_active_season_def get_data_def no_season_error_def split: option.splits)

text \<open>Two active seasons, and none.\<close>

theorem get_active_season_result_witness:
  "fst (get_active_season (server_seasons [190, 197]) st0) = Inr 197 \<and>
   fst (get_active_season (server_seasons []) st0) =
     Inl (RuntimeError ''No active V5RC season found!'')"
proof -
  have 1: "server_seasons [190, 197] (request_count st0) (''/seasons'', seasons_params)
      = Ok \<lparr>data = Some [190, 197], meta = None\<rparr>"
    and 2: "server_seasons [] (request_count st0) (''/seasons'', seasons_params)
      = Ok \<lparr>data = Some [], meta = None\<rparr>"
    by (simp_all add: server_seasons_def)
  from get_active_season_result [where srv = "server_seasons [190, 197]" and st = st0, OF 1]
    get_active_season_result [where srv = "server_seasons []" and st = st0, OF 2]
  show ?thesis by (simp add: no_season_error_def)
qed

subsection \<open>Empty and full qualified sets\<close>

text \<open>
  Claim C7. With an empty set of qualified teams the list \<open>non_qualified\<close> is the
  leaderboard itself, the same entries in the same order, and each entry has a bubble
  rank equal to its rank; with a set that contains the team identifier of every entry
  the list \<open>non_qualified\<close> is empty.
\<close>

theorem filter_empty_or_full_qualified_set:
  "(case aggregate_and_filter runs {} of
      (leaderboard, non_qualified, h') \<Rightarrow>
        non_qualified = leaderboard \<and>
        entries_of h' non_qualified =
          map (\<lambda>e. e\<lparr>bubble_rank := rank e\<rparr>) (aggregate_skills runs)) \<and>
   ((\<forall>e \<in> set (aggregate_skills runs). team_id e \<in> Q) \<longrightarrow>
      fst (snd (aggregate_and_filter runs Q)) = [])"
proof (intro conjI impI)
  show "case aggregate_and_filter runs {} of
      (leaderboard, non_qualified, h') \<Rightarrow>
        non_qualified = leaderboard \<and>
        entries_of h' non_qualified =
          map (\<lambda>e. e\<lparr>bubble_rank := rank e\<rparr>) (aggregate_skills runs)"
    by (simp add: aggregate_and_filter_unfold entries_after_empty_filter)
next
  assume "\<forall>e \<in> set (aggregate_skills runs). team_id e \<in> Q"
  then have "\<forall>t \<in> set [0..<length (aggregate_skills runs)]. team_id (aggregate_skills runs ! t) \<in> Q"
    by simp
  then have "filter (\<lambda>t. team_id (aggregate_skills runs ! t) \<notin> Q)
      [0..<length (aggregate_skills runs)] = []"
    by (simp only: filter_empty_conv not_not)
  then show "fst (snd (aggregate_and_filter runs Q)) = []"
    by (simp add: aggregate_and_filter_unfold)
qed

text \<open>The four teams of \<open>scenario_ties\<close>, all qualified and none qualified.\<close>

theorem filter_empty_or_full_qualified_set_witness:
  "list_all (\<lambda>e. team_id e \<in> {Some 1, Some 2, Some 3, Some 4}) (aggregate_skills scenario_ties) \<and>
   fst (snd (aggregate_and_filter scenario_ties {Some 1, Some 2, Some 3, Some 4})) = [] \<and>
   aggregate_skills scenario_ties \<noteq> [] \<and>
   fst (snd (aggregate_and_filter scenario_ties {})) = fst (aggregate_and_filter scenario_ties {}) \<and>
   map bubble_rank
     (entries_of (snd (snd (aggregate_and_filter scenario_ties {})))
        (fst (snd (aggregate_and_filter scenario_ties {})))) =
     [Some 1, Some 2, Some 3, Some 4]"
proof -
  note inst = filter_empty_or_full_qualified_set [of scenario_ties "{Some 1, Some 2, Some 3, Some 4}"]
  have all: "list_all (\<lambda>e. team_id e \<in> {Some 1, Some 2, Some 3, Some 4})
      (aggregate_skills scenario_ties)"
    by (simp add: ties_value)
  then have "\<forall>e \<in> set (aggregate_skills scenario_ties). team_id e \<in> {Some 1, Some 2, Some 3, Some 4}"
    by (simp only: list_all_iff)
  with inst have full: "fst (snd (aggregate_and_filter scenario_ties {Some 1, Some 2, Some 3, Some 4})) = []"
    by blast
  have ne: "aggregate_skills scenario_ties \<noteq> []" by (simp add: ties_value)
  from inst have "case aggregate_and_filter scenario_ties {} of
      (leaderboard, non_qualified, h') \<Rightarrow>
        non_qualified = leaderboard \<and>
        entries_of h' non_qualified =
          map (\<lambda>e. e\<lparr>bubble_rank := rank e\<rparr>) (aggregate_skills scenario_ties)"
    by (rule conjunct1)
  then have same: "fst (snd (aggregate_and_filter scenario_ties {})) =
      fst (aggregate_and_filter scenario_ties {})"
    and ents: "entries_of (snd (snd (aggregate_and_filter scenario_ties {})))
        (fst (snd (aggregate_and_filter scenario_ties {}))) =
          map (\<lambda>e. e\<lparr>bubble_rank := rank e\<rparr>) (aggregate_skills scenario_ties)"
    unfolding case_prod_beta by blast+
  have "map bubble_rank (map (\<lambda>e. e\<lparr>bubble_rank := rank e\<rparr>) (aggregate_skills scenario_ties))
      = [Some 1, Some 2, Some 3, Some 4]"
    by (simp add: ties_value)
  with ents have ranks: "map bubble_rank
     (entries_of (snd (snd (aggregate_and_filter scenario_ties {})))
        (fst (snd (aggregate_and_filter scenario_ties {})))) =
     [Some 1, Some 2, Some 3, Some 4]"
    by (simp only:)
  from all full ne same ranks show ?thesis by (simp only: simp_thms)
qed

subsection \<open>What the filter changes\<close>




subsection \<open>Runs of an unrecognized type\<close>

text \<open>
  Claim C10. A run whose type is neither "driver" nor "programming" creates its
  (team, event) group, with both scores zero, when the group is new, and leaves the
  dictionary as it is when the group exists: no score is updated. A team all of whose
  runs have such a type is on the leaderboard with driver, programming and combined
  score zero.
\<close>

theorem aggregate_skills_unrecognized_type:
  "(unrecognized r \<longrightarrow>
      add_run te r =
        (if map_of te (run_key r) = None then te @ [(run_key r, new_group r)] else te) \<and>
      te_driver (new_group r) = 0 \<and> te_programming (new_group r) = 0) \<and>
   (t \<in> run_team_id ` set runs \<and> (\<forall>x \<in> set runs. run_team_id x = t \<longrightarrow> unrecognized x) \<longrightarrow>
      (\<exists>e \<in> set (aggregate_skills runs).
         team_id e = t \<and> driver e = 0 \<and> programming e = 0 \<and> combined e = 0))"
  using add_run_unrecognized [of r te] new_group_zero [of r] unrecognized_team_zero [of t runs]
  by blast

text \<open>A single run of type "autonomous" scoring 70.\<close>

theorem aggregate_skills_unrecognized_type_witness:
  "unrecognized (mk_run 3 ''300C'' 1 ''E1'' ''autonomous'' 70) \<and>
   Some 3 \<in> run_team_id ` set scenario_unknown \<and>
   list_all (\<lambda>x. run_team_id x = Some 3 \<and> unrecognized x) scenario_unknown \<and>
   add_run [] (mk_run 3 ''300C'' 1 ''E1'' ''autonomous'' 70) =
     [((Some 3, Some 1),
       \<lparr>te_team_id = Some 3, te_team_number = ''300C'', te_event_id = Some 1,
        te_event_name = ''E1'', te_driver = 0, te_programming = 0\<rparr>)] \<and>
   aggregate_skills scenario_unknown =
     [\<lparr>team_id = Some 3, team_number = ''300C'', event_name = ''E1'', driver = 0,
        programming = 0, combined = 0, rank = Some 1, bubble_rank = None\<rparr>] \<and>
   (\<exists>e \<in> set (aggregate_skills scenario_unknown).
      team_id e = Some 3 \<and> driver e = 0 \<and> programming e = 0 \<and> combined e = 0)"
proof -
  let ?r = "mk_run 3 ''300C'' 1 ''E1'' ''autonomous'' 70"
  note inst = aggregate_skills_unrecognized_type [of ?r "[]" "Some 3" scenario_unknown]
  have u: "unrecognized ?r" by (simp add: unrecognized_def run_type_def mk_run_def)
  have t: "Some 3 \<in> run_team_id ` set scenario_unknown"
    by (simp add: scenario_unknown_def run_team_id_def get_info_def mk_run_def)
  have a: "list_all (\<lambda>x. run_team_id x = Some 3 \<and> unrecognized x) scenario_unknown"
    by (simp add: scenario_unknown_def run_team_id_def get_info_def mk_run_def
        unrecognized_def run_type_def)
  then have a': "\<forall>x \<in> set scenario_unknown. run_team_id x = Some 3 \<longrightarrow> unrecognized x"
    by (simp add: list_all_iff)
  from inst u have "add_run [] ?r = [] @ [(run_key ?r, new_group ?r)]" by simp
  then have g: "add_run [] ?r = [((Some 3, Some 1),
       \<lparr>te_team_id = Some 3, te_team_number = ''300C'', te_event_id = Some 1,
        te_event_name = ''E1'', te_driver = 0, te_programming = 0\<rparr>)]"
    by (simp add: run_key_def new_group_def run_team_id_def run_event_id_def get_info_def
        mk_run_def)
  from inst t a' have e: "\<exists>e \<in> set (aggregate_skills scenario_unknown).
      team_id e = Some 3 \<and> driver e = 0 \<and> programming e = 0 \<and> combined e = 0" by blast
  have v: "aggregate_skills scenario_unknown =
     [\<lparr>team_id = Some 3, team_number = ''300C'', event_name = ''E1'', driver = 0,
        programming = 0, combined = 0, rank = Some 1, bubble_rank = None\<rparr>]"
    by (simp add: scenario_unknown_def agg_defs)
  from u t a g v e show ?thesis by (simp only: simp_thms)
qed

end
